theory Spec2Isabelle
  imports Complex_Main "HOL-Library.Sublist"
begin

section \<open>wiki-to-leveldb\<close>

text \<open>
  \<open>wiki-to-leveldb.js\<close> reads a Wikipedia XML dump page by page. A page in an excluded
  namespace is dropped; a redirect is written to the database as it is; every other page
  is sent to one of the worker processes, which parses it and sends the result back to
  be written. Writes are collected in batches, and the input stream is paused while too
  many accepted pages are not yet written.

  The program is a set of handlers run by the event loop. Each handler is modelled as a
  function on the state of the coordinator (its variables, the workers' inboxes, the
  database, the console), and a run as the list of events the runtime delivers, in any
  order. What is not part of the repository appears as data of the events (what the
  parser returns, whether a write fails) or as a parameter (the Unicode tables).
\<close>

subsection \<open>Strings\<close>

text \<open>
  A JavaScript string is a sequence of UTF-16 code units; \<open>string[0]\<close>,
  \<open>substr\<close>, \<open>trim\<close> and a regular expression without the \<open>u\<close> flag all work
  on code units. A code unit is modelled as a natural number. \<open>js\<close> reads an
  ASCII literal as such a string.
\<close>

type_synonym jsstring = "nat list"

definition js :: "string \<Rightarrow> jsstring" where
  "js s = map of_char s"

text \<open>
  The platform tables that are not part of the repository: the Unicode data behind
  \<open>String.prototype.toUpperCase\<close> and behind the \<open>/ui\<close> regular expression. They
  are looked up only for code points outside ASCII; the ASCII rows are written out
  below. \<open>kWithSource\<close> is the command line switch \<open>--with-source\<close>.
  \<^item> \<open>upperTable c\<close>: the code units of \<open>toUpperCase\<close> of the one-unit string \<open>c\<close>;
  \<^item> \<open>foldTable c\<close>: the simple case folding of the code point \<open>c\<close>
    (\<open>Canonicalize\<close> of a \<open>/ui\<close> expression);
  \<^item> \<open>letterTable v\<close>: whether \<open>v\<close> is the case folding of a code point of the
    general category L.
\<close>

record env =
  kWithSource :: bool
  upperTable :: "nat \<Rightarrow> nat list"
  foldTable :: "nat \<Rightarrow> nat"
  letterTable :: "nat \<Rightarrow> bool"

definition asciiUpper :: "nat \<Rightarrow> nat" where
  "asciiUpper c = (if 97 \<le> c \<and> c \<le> 122 then c - 32 else c)"

definition asciiLower :: "nat \<Rightarrow> nat" where
  "asciiLower c = (if 65 \<le> c \<and> c \<le> 90 then c + 32 else c)"

text \<open>\<open>string[0].toUpperCase()\<close>: the upper case of a string of one code unit.\<close>

definition toUpperCase :: "env \<Rightarrow> nat \<Rightarrow> jsstring" where
  "toUpperCase E c = (if c < 128 then [asciiUpper c] else upperTable E c)"

text \<open>
  \<^verbatim>\<open>function capitalizeFirst(string) {
    return string !== '' ? string[0].toUpperCase() + string.substr(1) : '';
  }\<close>
\<close>

fun capitalizeFirst :: "env \<Rightarrow> jsstring \<Rightarrow> jsstring" where
  "capitalizeFirst E [] = []"
| "capitalizeFirst E (c # cs) = toUpperCase E c @ cs"

text \<open>
  White space and line terminators of ECMAScript: what \<open>trim\<close> strips and what
  \<open>\s\<close> matches.
\<close>

definition isLineTerminator :: "nat \<Rightarrow> bool" where
  "isLineTerminator c = (c = 10 \<or> c = 13 \<or> c = 8232 \<or> c = 8233)"

definition isWhiteSpace :: "nat \<Rightarrow> bool" where
  "isWhiteSpace c =
     (c = 9 \<or> c = 11 \<or> c = 12 \<or> c = 32 \<or> c = 160 \<or> c = 5760 \<or>
      (8192 \<le> c \<and> c \<le> 8202) \<or> c = 8239 \<or> c = 8287 \<or> c = 12288 \<or> c = 65279 \<or>
      isLineTerminator c)"

definition trim :: "jsstring \<Rightarrow> jsstring" where
  "trim s = rev (dropWhile isWhiteSpace (rev (dropWhile isWhiteSpace s)))"

section \<open>The namespace test\<close>

text \<open>
  \<^verbatim>\<open>/^(?!(Category|<Cyrillic: Kategoriya>):)\p{L}+:\w/ui.test(title)\<close>

  With the \<open>u\<close> flag the expression reads code points: a lead surrogate followed by
  a trail surrogate is one code point.
\<close>

fun codePoints :: "jsstring \<Rightarrow> nat list" where
  "codePoints (h # l # r) =
     (if 55296 \<le> h \<and> h \<le> 56319 \<and> 56320 \<le> l \<and> l \<le> 57343
      then (65536 + (h - 55296) * 1024 + (l - 56320)) # codePoints r
      else h # codePoints (l # r))"
| "codePoints r = r"

text \<open>
  \<open>Canonicalize\<close> under \<open>/ui\<close> is simple case folding. A literal character of the
  pattern matches a code point with the same canonical form; \<open>\p{L}\<close> matches a
  code point whose canonical form is that of a letter; \<open>\w\<close> matches one whose
  canonical form is that of \<open>[A-Za-z0-9_]\<close>.
\<close>

definition canonicalize :: "env \<Rightarrow> nat \<Rightarrow> nat" where
  "canonicalize E c = (if c < 128 then asciiLower c else foldTable E c)"

definition matchesChar :: "env \<Rightarrow> nat \<Rightarrow> nat \<Rightarrow> bool" where
  "matchesChar E p c = (canonicalize E c = canonicalize E p)"

definition matchesLetter :: "env \<Rightarrow> nat \<Rightarrow> bool" where
  "matchesLetter E c =
     (let v = canonicalize E c
      in if v < 128 then 97 \<le> v \<and> v \<le> 122 else letterTable E v)"

definition matchesWord :: "env \<Rightarrow> nat \<Rightarrow> bool" where
  "matchesWord E c =
     (let v = canonicalize E c
      in (97 \<le> v \<and> v \<le> 122) \<or> (48 \<le> v \<and> v \<le> 57) \<or> v = 95)"

text \<open>A literal of the pattern, matched at the start of the input.\<close>

fun matchesLiteral :: "env \<Rightarrow> nat list \<Rightarrow> nat list \<Rightarrow> bool" where
  "matchesLiteral E [] cs = True"
| "matchesLiteral E (p # ps) [] = False"
| "matchesLiteral E (p # ps) (c # cs) = (matchesChar E p c \<and> matchesLiteral E ps cs)"

text \<open>The two alternatives of the lookahead, colon included.\<close>

definition categoryEn :: "nat list" where
  "categoryEn = js ''Category:''"

definition categoryRu :: "nat list" where
  "categoryRu = [1050, 1072, 1090, 1077, 1075, 1086, 1088, 1080, 1103, 58]"

definition lookahead :: "env \<Rightarrow> nat list \<Rightarrow> bool" where
  "lookahead E cs = (matchesLiteral E categoryEn cs \<or> matchesLiteral E categoryRu cs)"

text \<open>\<open>:\w\<close> at the start of the input.\<close>

fun colonWord :: "env \<Rightarrow> nat list \<Rightarrow> bool" where
  "colonWord E (a # b # r) = (matchesChar E 58 a \<and> matchesWord E b)"
| "colonWord E r = False"

text \<open>
  \<open>\p{L}+:\w\<close> at the start of the input: one letter, and then either the rest of
  the pattern or more letters.
\<close>

fun lettersColonWord :: "env \<Rightarrow> nat list \<Rightarrow> bool" where
  "lettersColonWord E [] = False"
| "lettersColonWord E (c # cs) =
     (matchesLetter E c \<and> (lettersColonWord E cs \<or> colonWord E cs))"

definition namespaceTest :: "env \<Rightarrow> jsstring \<Rightarrow> bool" where
  "namespaceTest E title =
     (let cs = codePoints title in \<not> lookahead E cs \<and> lettersColonWord E cs)"

section \<open>The redirect pattern\<close>

text \<open>
  \<^verbatim>\<open>source.match(/^#redirect:?\s*\[\[(.+)\]\]/i)\<close>

  Without the \<open>u\<close> flag the expression reads code units, and \<open>Canonicalize\<close>
  never maps a unit outside ASCII to an ASCII one: a letter of \<open>redirect\<close> matches
  its two ASCII cases only.
\<close>

definition matchesAscii :: "nat \<Rightarrow> nat \<Rightarrow> bool" where
  "matchesAscii p c = (c < 128 \<and> asciiUpper c = asciiUpper p)"

fun matchesKeyword :: "nat list \<Rightarrow> jsstring \<Rightarrow> jsstring option" where
  "matchesKeyword [] cs = Some cs"
| "matchesKeyword (p # ps) [] = None"
| "matchesKeyword (p # ps) (c # cs) = (if matchesAscii p c then matchesKeyword ps cs else None)"

text \<open>
  \<open>(.+)\]\]\<close> at the end of the pattern: \<open>.\<close> takes one unit that is no line
  terminator; the greedy \<open>+\<close> first tries to take more, and only when that fails
  looks for \<open>]]\<close> right here. The result is the captured group.
\<close>

fun dotPlusClose :: "jsstring \<Rightarrow> jsstring option" where
  "dotPlusClose [] = None"
| "dotPlusClose (c # cs) =
     (if isLineTerminator c then None
      else (case dotPlusClose cs of
              Some g \<Rightarrow> Some (c # g)
            | None \<Rightarrow> (case cs of
                         a # b # r \<Rightarrow> if a = 93 \<and> b = 93 then Some [c] else None
                       | _ \<Rightarrow> None)))"

definition optionalColon :: "jsstring \<Rightarrow> jsstring" where
  "optionalColon cs = (case cs of [] \<Rightarrow> [] | c # r \<Rightarrow> if c = 58 then r else cs)"

definition redirectMatch :: "jsstring \<Rightarrow> jsstring option" where
  "redirectMatch source =
     (case matchesKeyword (js ''#redirect'') source of
        None \<Rightarrow> None
      | Some r \<Rightarrow>
          (case dropWhile isWhiteSpace (optionalColon r) of
             a # b # t \<Rightarrow> if a = 91 \<and> b = 91 then dotPlusClose t else None
           | _ \<Rightarrow> None))"

section \<open>Data of a run\<close>

text \<open>
  A page as \<open>xml-stream\<close> hands it to the handler. \<open>page_title = None\<close>: the page
  object has no \<open>title\<close>; \<open>page_text = None\<close>: it has no \<open>revision\<close> or
  no \<open>revision.text\<close>; \<open>page_text = Some None\<close>: the text element has no
  \<open>$text\<close>.
\<close>

record page =
  page_id :: "jsstring option"
  page_title :: "jsstring option"
  page_text :: "jsstring option option"

text \<open>
  The syntax tree that the parser (wikiparse, not part of the repository) returns is an
  array of nodes. The coordinator and the workers never look inside a node; one is kept
  as a text leaf or a named element with children.
\<close>

datatype node =
    Text jsstring
  | Element jsstring "node list"

text \<open>
  The object that is serialised by \<open>JSON.stringify\<close> into the stored value: of
  a redirect \<open>{id, title, redirectTo, source?}\<close>, of a parsed page
  \<open>{id, title, ast, parseTime, backtrackingCount, source?}\<close>.
\<close>

datatype stored =
    RedirectPage "jsstring option" jsstring jsstring "jsstring option"
  | ParsedPage "jsstring option" jsstring "node list" rat nat "jsstring option"

text \<open>One operation \<open>{type: 'put', key, value}\<close> of a batch.\<close>

record entry =
  key :: jsstring
  val :: stored

text \<open>A message of the coordinator to a worker.\<close>

datatype wmsg =
    Work "jsstring option" jsstring jsstring
  | Disconnect

text \<open>
  What \<open>parser.parse(source)\<close> does in a worker: it returns a tree, it returns an
  \<open>Error\<close> value (the parser is built with \<open>returnError: true\<close>), or it throws.
\<close>

datatype parsed =
    Ast "node list"
  | ParseError jsstring
  | Throws

text \<open>
  A worker process: the messages sent to it that it has not handled yet, whether its
  channel is open, and what it has written with \<open>console.error\<close>.
\<close>

record worker =
  inbox :: "wmsg list"
  online :: bool
  wlog :: "(jsstring \<times> jsstring) list"

text \<open>What the coordinator writes to its console.\<close>

datatype logline =
    DbError jsstring
  | WorkerDied nat
  | PageError "jsstring option"
  | XmlParsingFailed jsstring
  | ShuttingDown

text \<open>
  The coordinator: its variables \<open>nRead\<close>, \<open>nWritten\<close>, \<open>batch\<close>,
  \<open>workers\<close> and \<open>nSentToWorkers\<close>; the batches handed to \<open>db.batch\<close> whose
  callback has not run (\<open>inflight\<close>); the database (\<open>db\<close>); whether \<open>stream\<close>
  is paused; the console; and the status of \<open>process.exit\<close>, if it was called.
\<close>

record state =
  nRead :: int
  nWritten :: int
  batch :: "entry list"
  inflight :: "entry list list"
  db :: "jsstring \<rightharpoonup> stored"
  workers :: "worker list"
  nSentToWorkers :: nat
  paused :: bool
  logged :: "logline list"
  exited :: "int option"

text \<open>
  What the event loop of the coordinator can run next:
  \<^item> \<open>EndPage p\<close>: the XML reader closes a page element;
  \<^item> \<open>WorkerTurn w r b ms\<close>: worker \<open>w\<close> handles the next message of its inbox,
    its parser answers \<open>r\<close> with \<open>b\<close> backtracking events after \<open>ms\<close>
    milliseconds, and its reply reaches the coordinator;
  \<^item> \<open>BatchCallback i err\<close>: the database finishes the \<open>i\<close>-th batch in flight and
    calls back with \<open>err\<close>;
  \<^item> \<open>StreamClose\<close>: the input stream closes;
  \<^item> \<open>XmlError m\<close>: the XML reader reports an error;
  \<^item> \<open>Death w\<close>: the cluster reports the death of worker \<open>w\<close>.
\<close>

datatype event =
    EndPage page
  | WorkerTurn nat parsed nat int
  | BatchCallback nat "jsstring option"
  | StreamClose
  | XmlError jsstring
  | Death nat

section \<open>The coordinator\<close>

definition kMaxPagesInFlight :: int where
  "kMaxPagesInFlight = 10000"

definition kBatchSize :: int where
  "kBatchSize = 100"

text \<open>\<open>console.error(...); process.exit(1)\<close>\<close>

definition fatal :: "logline \<Rightarrow> state \<Rightarrow> state" where
  "fatal l s = s\<lparr>logged := logged s @ [l], exited := Some 1\<rparr>"

text \<open>
  \<^verbatim>\<open>function write({key, value}) {
    batch.push({type: 'put', key, value});
    if (batch.length >= kBatchSize) {
      const currentBatch = batch.splice(0);
      db.batch(currentBatch, function (err) { ... });
    }
  }\<close>
\<close>

definition write_kv :: "entry \<Rightarrow> state \<Rightarrow> state" where
  "write_kv e s =
     (let b = batch s @ [e]
      in if int (length b) \<ge> kBatchSize
         then s\<lparr>batch := [], inflight := inflight s @ [b]\<rparr>
         else s\<lparr>batch := b\<rparr>)"

text \<open>The database after the operations of a batch, in their order.\<close>

definition applyBatch :: "entry list \<Rightarrow> (jsstring \<rightharpoonup> stored) \<Rightarrow> (jsstring \<rightharpoonup> stored)" where
  "applyBatch b m = foldl (\<lambda>m e. m(key e \<mapsto> val e)) m b"

text \<open>
  The callback of \<open>db.batch\<close>, for the \<open>i\<close>-th batch in flight:
  \<^verbatim>\<open>function (err) {
    if (err) { console.error(err); process.exit(1); }
    if ((nWritten += currentBatch.length) >= nRead - kMaxPagesInFlight) {
      stream.resume();
    }
  }\<close>
  A batch that succeeded is in the database when its callback runs.
\<close>

definition batchCallback :: "nat \<Rightarrow> jsstring option \<Rightarrow> state \<Rightarrow> state" where
  "batchCallback i err s =
     (if i < length (inflight s) then
        (let currentBatch = inflight s ! i;
             s1 = s\<lparr>inflight := take i (inflight s) @ drop (Suc i) (inflight s)\<rparr>
         in case err of
              Some e \<Rightarrow> fatal (DbError e) s1
            | None \<Rightarrow>
                (let s2 = s1\<lparr>db := applyBatch currentBatch (db s1),
                              nWritten := nWritten s1 + int (length currentBatch)\<rparr>
                 in if nWritten s2 \<ge> nRead s2 - kMaxPagesInFlight
                    then s2\<lparr>paused := False\<rparr> else s2))
      else s)"

text \<open>\<open>cluster.fork()\<close>, \<open>n\<close> times, before anything is read.\<close>

definition initial :: "nat \<Rightarrow> state" where
  "initial n =
     \<lparr>nRead = 0, nWritten = 0, batch = [], inflight = [], db = Map.empty,
      workers = replicate n \<lparr>inbox = [], online = True, wlog = []\<rparr>,
      nSentToWorkers = 0, paused = False, logged = [], exited = None\<rparr>"

text \<open>
  \<^verbatim>\<open>cluster.on('death', function (worker) {
    console.error('Worker', worker.pid, 'died');
    process.exit(1);
  });\<close>
\<close>

definition onDeath :: "nat \<Rightarrow> state \<Rightarrow> state" where
  "onDeath w s = fatal (WorkerDied w) s"

text \<open>
  \<^verbatim>\<open>workers[nSentToWorkers % workers.length].send({id: page.id, title, source});
  nSentToWorkers++;\<close>
  With no worker the index is \<open>NaN\<close>, the element \<open>undefined\<close>, and the call
  throws: \<open>None\<close>. Otherwise the message joins the inbox of the worker, whether or not
  the worker still handles messages.
\<close>

definition sendToWorker :: "wmsg \<Rightarrow> state \<Rightarrow> state option" where
  "sendToWorker m s =
     (if workers s = [] then None
      else (let w = nSentToWorkers s mod length (workers s);
                wk = workers s ! w
            in Some (s\<lparr>workers := (workers s)[w := wk\<lparr>inbox := inbox wk @ [m]\<rparr>],
                       nSentToWorkers := Suc (nSentToWorkers s)\<rparr>)))"

text \<open>
  \<^verbatim>\<open>if (++nRead >= nWritten + kMaxPagesInFlight) {
    stream.pause();
  }\<close>
\<close>

definition countRead :: "state \<Rightarrow> state" where
  "countRead s =
     (let s1 = s\<lparr>nRead := nRead s + 1\<rparr>
      in if nRead s1 \<ge> nWritten s1 + kMaxPagesInFlight then s1\<lparr>paused := True\<rparr> else s1)"

text \<open>\<open>page.revision.text.$text || ''\<close>\<close>

definition orEmpty :: "jsstring option \<Rightarrow> jsstring" where
  "orEmpty x = (case x of None \<Rightarrow> [] | Some y \<Rightarrow> y)"

text \<open>
  The handler of \<open>endElement: page\<close>. Whatever is thrown inside its \<open>try\<close> block
  is caught, written to the console with the title read so far, and ends the process
  with status 1. (The progress bar is not modelled.)
\<close>

definition onEndPage :: "env \<Rightarrow> page \<Rightarrow> state \<Rightarrow> state" where
  "onEndPage E p s =
     (case page_title p of
        None \<Rightarrow> fatal (PageError None) s
      | Some t \<Rightarrow>
          (let title = trim t in
           case page_text p of
             None \<Rightarrow> fatal (PageError (Some title)) s
           | Some x \<Rightarrow>
               (let source = orEmpty x in
                if \<not> namespaceTest E title then
                  (case redirectMatch source of
                     Some target \<Rightarrow>
                       countRead (write_kv
                         \<lparr>key = capitalizeFirst E title,
                          val = RedirectPage (page_id p) title (capitalizeFirst E target)
                                  (if kWithSource E then Some source else None)\<rparr> s)
                   | None \<Rightarrow>
                       (case sendToWorker (Work (page_id p) title source) s of
                          None \<Rightarrow> fatal (PageError (Some title)) s
                        | Some s' \<Rightarrow> countRead s'))
                else s)))"

text \<open>
  \<^verbatim>\<open>stream.on('close', () => {
    bar.terminate();
    console.log('Shutting down...');
    for (const worker of workers) { worker.send({command: 'disconnect'}); }
  });\<close>
\<close>

definition onClose :: "state \<Rightarrow> state" where
  "onClose s =
     s\<lparr>logged := logged s @ [ShuttingDown],
       workers := map (\<lambda>wk. wk\<lparr>inbox := inbox wk @ [Disconnect]\<rparr>) (workers s)\<rparr>"

text \<open>
  \<^verbatim>\<open>xml.on('error', message => {
    console.error('XML parsing failed:', message);
  });\<close>
\<close>

definition onXmlError :: "jsstring \<Rightarrow> state \<Rightarrow> state" where
  "onXmlError m s = s\<lparr>logged := logged s @ [XmlParsingFailed m]\<rparr>"

section \<open>The worker\<close>

text \<open>
  \<^verbatim>\<open>const page = {id, title, ast, parseTime, backtrackingCount: parser.backtrackingCount,
    ...(kWithSource ? {source} : {})};
  process.send({key: capitalizeFirst(title), value: JSON.stringify(page)});\<close>
\<close>

definition reply :: "env \<Rightarrow> jsstring option \<Rightarrow> jsstring \<Rightarrow> jsstring \<Rightarrow> node list \<Rightarrow> nat \<Rightarrow> int \<Rightarrow> entry" where
  "reply E i title source ast b ms =
     \<lparr>key = capitalizeFirst E title,
      val = ParsedPage i title ast (of_int ms / 1000) b
              (if kWithSource E then Some source else None)\<rparr>"

text \<open>
  The handler of \<open>message\<close> in worker \<open>w\<close>, on the first message of its inbox, and
  the coordinator's \<open>worker.on('message', write)\<close> on the reply:
  \<^verbatim>\<open>if (command === 'disconnect') { process.disconnect(); return; }
  let ast = parser.parse(source);
  if (ast instanceof Error) { console.error(title, ast); ast = []; }\<close>
  A parser that throws ends the worker process: nothing catches it.
\<close>

definition onWorkerTurn :: "env \<Rightarrow> nat \<Rightarrow> parsed \<Rightarrow> nat \<Rightarrow> int \<Rightarrow> state \<Rightarrow> state" where
  "onWorkerTurn E w r b ms s =
     (if w < length (workers s) \<and> online (workers s ! w) then
        (let wk = workers s ! w in
         case inbox wk of
           [] \<Rightarrow> s
         | m # rest \<Rightarrow>
             (case m of
                Disconnect \<Rightarrow>
                  s\<lparr>workers := (workers s)[w := wk\<lparr>inbox := rest, online := False\<rparr>]\<rparr>
              | Work i title source \<Rightarrow>
                  (case r of
                     Throws \<Rightarrow>
                       s\<lparr>workers := (workers s)[w := wk\<lparr>inbox := rest, online := False\<rparr>]\<rparr>
                   | ParseError e \<Rightarrow>
                       write_kv (reply E i title source [] b ms)
                         (s\<lparr>workers := (workers s)[w := wk\<lparr>inbox := rest,
                                                             wlog := wlog wk @ [(title, e)]\<rparr>]\<rparr>)
                   | Ast a \<Rightarrow>
                       write_kv (reply E i title source a b ms)
                         (s\<lparr>workers := (workers s)[w := wk\<lparr>inbox := rest\<rparr>]\<rparr>))))
      else s)"

section \<open>Runs\<close>

text \<open>One turn of the event loop. After \<open>process.exit\<close> nothing runs.\<close>

definition step :: "env \<Rightarrow> state \<Rightarrow> event \<Rightarrow> state" where
  "step E s ev =
     (if exited s \<noteq> None then s
      else (case ev of
              EndPage p \<Rightarrow> onEndPage E p s
            | WorkerTurn w r b ms \<Rightarrow> onWorkerTurn E w r b ms s
            | BatchCallback i err \<Rightarrow> batchCallback i err s
            | StreamClose \<Rightarrow> onClose s
            | XmlError m \<Rightarrow> onXmlError m s
            | Death w \<Rightarrow> onDeath w s))"

definition exec :: "env \<Rightarrow> state \<Rightarrow> event list \<Rightarrow> state" where
  "exec E s evs = foldl (step E) s evs"

text \<open>
  \<open>stream.pause()\<close> stops the source, but what the source has already handed to the
  XML reader may still close pages. \<open>late E s k ev\<close> counts the pages delivered while
  the stream is paused: \<open>k\<close> so far, and after the event \<open>ev\<close> one more if it is such
  a page, none once the stream flows again. In a schedule \<open>pausesWithin c\<close> that count
  never exceeds \<open>c\<close>; with \<open>c = 0\<close> no page is delivered while the stream is paused.
\<close>

definition late :: "env \<Rightarrow> state \<Rightarrow> nat \<Rightarrow> event \<Rightarrow> nat" where
  "late E s k ev =
     (case ev of
        EndPage p \<Rightarrow> if paused s then Suc k else 0
      | _ \<Rightarrow> if paused (step E s ev) then k else 0)"

fun pausesWithin :: "nat \<Rightarrow> env \<Rightarrow> state \<Rightarrow> nat \<Rightarrow> event list \<Rightarrow> bool" where
  "pausesWithin c E s k [] = True"
| "pausesWithin c E s k (ev # evs) =
     (late E s k ev \<le> c \<and> pausesWithin c E (step E s ev) (late E s k ev) evs)"

text \<open>
  Platform tables that leave every code point outside ASCII alone, for the examples
  below (all ASCII), without \<open>--with-source\<close>.
\<close>

definition plainEnv :: env where
  "plainEnv = \<lparr>kWithSource = False, upperTable = (\<lambda>c. [c]), foldTable = (\<lambda>c. c),
               letterTable = (\<lambda>c. False)\<rparr>"

text \<open>
  The same tables with the rows of three Latin-1 letters: U+00E9 (e with acute), whose
  upper case is U+00C9, and U+00DF (sharp s), whose upper case is \<open>SS\<close>.
\<close>

definition latinEnv :: env where
  "latinEnv =
     \<lparr>kWithSource = False,
      upperTable = (\<lambda>c. if c = 233 then [201] else if c = 223 then [83, 83] else [c]),
      foldTable = (\<lambda>c. if c = 201 then 233 else c),
      letterTable = (\<lambda>v. v = 233 \<or> v = 223)\<rparr>"

section \<open>Records in flight\<close>

text \<open>
  The records the coordinator has accepted and not yet written are in one of three
  places: in the inbox of a worker (\<open>queued\<close>), or in \<open>batch\<close> or a batch handed
  to the database (\<open>buffered\<close>). \<open>accounted\<close> adds the written ones.
\<close>

fun isWork :: "wmsg \<Rightarrow> bool" where
  "isWork (Work i t x) = True"
| "isWork Disconnect = False"

definition queued :: "worker list \<Rightarrow> nat" where
  "queued ws = sum_list (map (\<lambda>wk. length (filter isWork (inbox wk))) ws)"

definition buffered :: "state \<Rightarrow> entry list" where
  "buffered s = concat (inflight s) @ batch s"

definition accounted :: "state \<Rightarrow> int" where
  "accounted s = nWritten s + int (length (buffered s)) + int (queued (workers s))"

section \<open>Flow control\<close>

text \<open>
  What flow control maintains, \<open>k\<close> pages having been delivered while the stream was
  paused: at most \<open>kMaxPagesInFlight + k\<close> records are accepted and not written, fewer
  than \<open>kMaxPagesInFlight\<close> while the stream is not paused; and every batch handed to
  the database has at least \<open>kBatchSize\<close> entries.
\<close>

definition flowInv :: "nat \<Rightarrow> state \<Rightarrow> bool" where
  "flowInv k s =
     (nRead s - nWritten s \<le> kMaxPagesInFlight + int k \<and>
      (if paused s then True else nRead s - nWritten s < kMaxPagesInFlight) \<and>
      list_all (\<lambda>b. kBatchSize \<le> int (length b)) (inflight s))"

text \<open>
  The same without any assumption on the schedule. \<open>lateCount E s k evs\<close> is the count
  of \<open>late\<close> at the end of the run \<open>evs\<close> from \<open>s\<close>: the number of pages
  delivered since the stream last flowed. A successful batch may resume the stream with
  exactly \<open>kMaxPagesInFlight\<close> records in flight, and the next page is accepted before
  the stream is paused again: hence \<open>kMaxPagesInFlight + 1 + k\<close>.
\<close>

fun lateCount :: "env \<Rightarrow> state \<Rightarrow> nat \<Rightarrow> event list \<Rightarrow> nat" where
  "lateCount E s k [] = k"
| "lateCount E s k (ev # evs) = lateCount E (step E s ev) (late E s k ev) evs"

definition softInv :: "nat \<Rightarrow> state \<Rightarrow> bool" where
  "softInv k s =
     (nRead s - nWritten s \<le> kMaxPagesInFlight + 1 + int k \<and>
      (if paused s then True else nRead s - nWritten s \<le> kMaxPagesInFlight))"

section \<open>Example runs\<close>

text \<open>A page with the given title and text (ASCII), and no id.\<close>

definition examplePage :: "string \<Rightarrow> string \<Rightarrow> page" where
  "examplePage t x = \<lparr>page_id = None, page_title = Some (js t), page_text = Some (Some (js x))\<rparr>"

text \<open>
  Runs with one worker and the tables \<open>plainEnv\<close>: \<open>k\<close> pages titled \<open>t\<close> with
  the text \<open>Hello\<close>, then turns of the worker, whose parser returns the empty tree
  at once. \<open>workFor t\<close> is the message sent for each page and \<open>entryFor t\<close> the
  worker's reply to it.
\<close>

definition workFor :: "string \<Rightarrow> wmsg" where
  "workFor t = Work None (js t) (js ''Hello'')"

definition entryFor :: "string \<Rightarrow> entry" where
  "entryFor t =
     \<lparr>key = capitalizeFirst plainEnv (js t), val = ParsedPage None (js t) [] 0 0 None\<rparr>"

definition pagesThenTurns :: "string \<Rightarrow> nat \<Rightarrow> nat \<Rightarrow> event list" where
  "pagesThenTurns t k j =
     replicate k (EndPage (examplePage t ''Hello'')) @ replicate j (WorkerTurn 0 (Ast []) 0 0)"

text \<open>The state after \<open>k\<close> pages and \<open>j < 100\<close> turns.\<close>

definition midRun :: "string \<Rightarrow> nat \<Rightarrow> nat \<Rightarrow> state" where
  "midRun t k j =
     \<lparr>nRead = int k, nWritten = 0, batch = replicate j (entryFor t), inflight = [],
      db = Map.empty,
      workers = [\<lparr>inbox = replicate (k - j) (workFor t), online = True, wlog = []\<rparr>],
      nSentToWorkers = k, paused = (10000 \<le> k), logged = [], exited = None\<rparr>"

text \<open>The state after \<open>k\<close> pages and 100 turns: the first batch is in flight.\<close>

definition flushing :: "string \<Rightarrow> nat \<Rightarrow> state" where
  "flushing t k =
     \<lparr>nRead = int k, nWritten = 0, batch = [], inflight = [replicate 100 (entryFor t)],
      db = Map.empty,
      workers = [\<lparr>inbox = replicate (k - 100) (workFor t), online = True, wlog = []\<rparr>],
      nSentToWorkers = k, paused = (10000 \<le> k), logged = [], exited = None\<rparr>"

text \<open>The state after the callback of that batch, for \<open>k \<le> 10100\<close>.\<close>

definition flushed :: "string \<Rightarrow> nat \<Rightarrow> state" where
  "flushed t k =
     \<lparr>nRead = int k, nWritten = 100, batch = [], inflight = [],
      db = [capitalizeFirst plainEnv (js t) \<mapsto> ParsedPage None (js t) [] 0 0 None],
      workers = [\<lparr>inbox = replicate (k - 100) (workFor t), online = True, wlog = []\<rparr>],
      nSentToWorkers = k, paused = False, logged = [], exited = None\<rparr>"

section \<open>Dispatch\<close>

text \<open>
  The events that hand a record to a worker: a page with a title and a text whose
  title passes the namespace test and whose text is no redirect.
\<close>

fun dispatches :: "env \<Rightarrow> event \<Rightarrow> bool" where
  "dispatches E (EndPage p) =
     (case page_title p of
        None \<Rightarrow> False
      | Some t \<Rightarrow>
          (case page_text p of
             None \<Rightarrow> False
           | Some x \<Rightarrow> \<not> namespaceTest E (trim t) \<and> redirectMatch (orEmpty x) = None))"
| "dispatches E ev = False"

text \<open>Four pages for two workers: the second is a redirect, the third is dropped.\<close>

definition fourPages :: "event list" where
  "fourPages =
     [EndPage (examplePage ''A'' ''a''),
      EndPage (examplePage ''foo'' ''#REDIRECT [[Bar baz]]''),
      EndPage (examplePage ''File:X'' ''x''),
      EndPage (examplePage ''B'' ''b'')]"

section \<open>The namespace test, read case-sensitively\<close>

text \<open>
  The spec's reading of the namespace decision, "case-sensitive prefixes": the test of
  the source with the two allowed prefixes compared code point by code point instead of
  by canonical form. It is here only to be compared with \<open>namespaceTest\<close>.
\<close>

definition namespaceTestCaseSensitive :: "env \<Rightarrow> jsstring \<Rightarrow> bool" where
  "namespaceTestCaseSensitive E title =
     (let cs = codePoints title
      in \<not> (prefix categoryEn cs \<or> prefix categoryRu cs) \<and> lettersColonWord E cs)"

text \<open>Two sequences of code points that differ at most in case.\<close>

definition sameFold :: "env \<Rightarrow> nat list \<Rightarrow> nat list \<Rightarrow> bool" where
  "sameFold E cs ds = list_all2 (\<lambda>c d. canonicalize E c = canonicalize E d) cs ds"

text \<open>
  A sequence of code points that starts with the literal \<open>lit\<close>, in any letter case:
  its first \<open>length lit\<close> code points differ from \<open>lit\<close> at most in case.
\<close>

definition foldPrefix :: "env \<Rightarrow> nat list \<Rightarrow> nat list \<Rightarrow> bool" where
  "foldPrefix E lit cs = (length lit \<le> length cs \<and> sameFold E (take (length lit) cs) lit)"

text \<open>
  Two pages for one worker; the parser will fail on the first (title \<open>Broken\<close>,
  text \<open>{{{\<close>).
\<close>

definition brokenThenNext :: "event list" where
  "brokenThenNext =
     [EndPage (examplePage ''Broken'' ''{{{''), EndPage (examplePage ''Next'' ''ok'')]"

section \<open>Full batches\<close>

text \<open>
  What the batcher maintains: every batch handed to the database has at least
  \<open>kBatchSize\<close> entries, and the database has been written only if \<open>nWritten\<close> has
  reached \<open>kBatchSize\<close>.
\<close>

definition fullBatches :: "state \<Rightarrow> bool" where
  "fullBatches s =
     (list_all (\<lambda>b. kBatchSize \<le> int (length b)) (inflight s) \<and>
      0 \<le> nWritten s \<and>
      (if db s = Map.empty then True else kBatchSize \<le> nWritten s))"

text \<open>The one-record run of Scenario A, to the end of the input and of the worker.\<close>

definition oneRecordRun :: "event list" where
  "oneRecordRun =
     [EndPage (examplePage ''Test'' ''Hello''),
      WorkerTurn 0 (Ast [Text (js ''Hello'')]) 0 1,
      StreamClose,
      WorkerTurn 0 (Ast []) 0 0]"

text \<open>
  The run of Scenario C, to the end of the input and of the worker: the one page
  \<open>foo\<close>, a redirect to \<open>Bar baz\<close>.
\<close>

definition redirectRun :: "event list" where
  "redirectRun =
     [EndPage (examplePage ''foo'' ''#REDIRECT [[Bar baz]]''),
      StreamClose,
      WorkerTurn 0 (Ast []) 0 0]"

section \<open>Where keys come from\<close>

text \<open>
  The title under which an event hands a record to the pipeline, if it does: the trimmed
  title of a page that passes the namespace test.
\<close>

fun acceptedTitle :: "env \<Rightarrow> event \<Rightarrow> jsstring set" where
  "acceptedTitle E (EndPage p) =
     (case page_title p of
        None \<Rightarrow> {}
      | Some t \<Rightarrow> if namespaceTest E (trim t) then {} else {trim t})"
| "acceptedTitle E ev = {}"

text \<open>
  Every key in a batch or in the database, and every title on its way to a worker, is
  that of a title in \<open>A\<close>.
\<close>

definition keysFrom :: "env \<Rightarrow> jsstring set \<Rightarrow> state \<Rightarrow> bool" where
  "keysFrom E A s =
     (key ` set (buffered s) \<subseteq> capitalizeFirst E ` A \<and>
      dom (db s) \<subseteq> capitalizeFirst E ` A \<and>
      (\<forall>wk \<in> set (workers s). \<forall>i t x. Work i t x \<in> set (inbox wk) \<longrightarrow> t \<in> A))"

section \<open>Canonical titles\<close>

lemma toUpperCase_ascii_fixed:
  "c < 128 \<Longrightarrow> toUpperCase E (asciiUpper c) = [asciiUpper c]"
  by (auto simp: toUpperCase_def asciiUpper_def)

text \<open>
  C6. \<open>capitalizeFirst\<close> (the spec's \<open>canonical\<close>) replaces the first code unit of
  a title by its upper case and leaves every unit after it as it is; the empty title
  stays empty. It is idempotent on every title that starts with an ASCII unit, and on
  every other title provided the upper case of its first unit, which the platform's
  table gives, starts with a unit that is its own upper case.
\<close>

theorem capitalizeFirst_first_only_idempotent:
  assumes table: "\<And>c cs. t = c # cs \<Longrightarrow> 128 \<le> c \<Longrightarrow>
      \<exists>d ds. upperTable E c = d # ds \<and> toUpperCase E d = [d]"
  shows "capitalizeFirst E [] = [] \<and>
         (t \<noteq> [] \<longrightarrow> capitalizeFirst E t = toUpperCase E (hd t) @ tl t) \<and>
         capitalizeFirst E (capitalizeFirst E t) = capitalizeFirst E t"
proof (cases t)
  case Nil
  then show ?thesis by simp
next
  case (Cons c cs)
  have idem: "capitalizeFirst E (toUpperCase E c @ cs) = toUpperCase E c @ cs"
  proof (cases "c < 128")
    case True
    then show ?thesis
      using toUpperCase_ascii_fixed [of c E] by (simp add: toUpperCase_def)
  next
    case False
    then obtain d ds where up: "upperTable E c = d # ds" and fixed: "toUpperCase E d = [d]"
      using table [OF Cons] by auto
    from False up have "toUpperCase E c = d # ds"
      by (simp add: toUpperCase_def)
    with fixed show ?thesis by simp
  qed
  with Cons show ?thesis by simp
qed

theorem capitalizeFirst_first_only_idempotent_witness:
  "capitalizeFirst latinEnv [] = [] \<and>
   capitalizeFirst latinEnv (js ''foo bar'') = js ''Foo bar'' \<and>
   capitalizeFirst latinEnv (capitalizeFirst latinEnv (js ''foo bar'')) =
     capitalizeFirst latinEnv (js ''foo bar'') \<and>
   capitalizeFirst latinEnv (233 # js ''t'') = 201 # js ''t'' \<and>
   capitalizeFirst latinEnv (capitalizeFirst latinEnv (233 # js ''t'')) =
     capitalizeFirst latinEnv (233 # js ''t'') \<and>
   capitalizeFirst latinEnv (223 # js ''a'') = js ''SSa'' \<and>
   capitalizeFirst latinEnv (capitalizeFirst latinEnv (223 # js ''a'')) =
     capitalizeFirst latinEnv (223 # js ''a'')"
proof -
  have ascii: "\<And>c cs. js ''foo bar'' = c # cs \<Longrightarrow> 128 \<le> c \<Longrightarrow>
      \<exists>d ds. upperTable latinEnv c = d # ds \<and> toUpperCase latinEnv d = [d]"
    by (simp add: js_def)
  have acute: "\<And>c cs. 233 # js ''t'' = c # cs \<Longrightarrow> 128 \<le> c \<Longrightarrow>
      \<exists>d ds. upperTable latinEnv c = d # ds \<and> toUpperCase latinEnv d = [d]"
    by (simp add: latinEnv_def toUpperCase_def)
  have sharp: "\<And>c cs. 223 # js ''a'' = c # cs \<Longrightarrow> 128 \<le> c \<Longrightarrow>
      \<exists>d ds. upperTable latinEnv c = d # ds \<and> toUpperCase latinEnv d = [d]"
    by (simp add: latinEnv_def toUpperCase_def asciiUpper_def)
  show ?thesis
    using capitalizeFirst_first_only_idempotent [of "js ''foo bar''" latinEnv, OF ascii]
      capitalizeFirst_first_only_idempotent [of "233 # js ''t''" latinEnv, OF acute]
      capitalizeFirst_first_only_idempotent [of "223 # js ''a''" latinEnv, OF sharp]
    by (simp add: js_def toUpperCase_def asciiUpper_def latinEnv_def)
qed

section \<open>Accepted and written records\<close>

lemma queued_update:
  "w < length ws \<Longrightarrow>
   queued (ws[w := wk]) + length (filter isWork (inbox (ws ! w))) =
   queued ws + length (filter isWork (inbox wk))"
proof (induction ws arbitrary: w)
  case Nil
  then show ?case by simp
next
  case (Cons a ws)
  then show ?case by (cases w) (auto simp: queued_def)
qed

lemma queued_map_disconnect:
  "queued (map (\<lambda>wk. wk\<lparr>inbox := inbox wk @ [Disconnect]\<rparr>) ws) = queued ws"
  by (induction ws) (auto simp: queued_def)

lemma length_concat_remove:
  "i < length xs \<Longrightarrow>
   length (concat (take i xs @ drop (Suc i) xs)) + length (xs ! i) = length (concat xs)"
proof -
  assume "i < length xs"
  then have "xs = take i xs @ (xs ! i) # drop (Suc i) xs"
    by (rule id_take_nth_drop)
  then have "concat xs = concat (take i xs) @ (xs ! i) @ concat (drop (Suc i) xs)"
    by (metis concat.simps(2) concat_append)
  then show ?thesis by simp
qed

lemma write_kv_fields:
  "nRead (write_kv e s) = nRead s" "nWritten (write_kv e s) = nWritten s"
  "workers (write_kv e s) = workers s" "nSentToWorkers (write_kv e s) = nSentToWorkers s"
  "paused (write_kv e s) = paused s" "exited (write_kv e s) = exited s"
  "db (write_kv e s) = db s" "logged (write_kv e s) = logged s"
  by (simp_all add: write_kv_def Let_def)

lemma buffered_write_kv: "buffered (write_kv e s) = buffered s @ [e]"
  by (simp add: write_kv_def buffered_def Let_def)

lemma countRead_fields:
  "nRead (countRead s) = nRead s + 1" "nWritten (countRead s) = nWritten s"
  "workers (countRead s) = workers s" "nSentToWorkers (countRead s) = nSentToWorkers s"
  "exited (countRead s) = exited s" "batch (countRead s) = batch s"
  "inflight (countRead s) = inflight s" "db (countRead s) = db s" "logged (countRead s) = logged s"
  by (simp_all add: countRead_def Let_def)

lemma buffered_countRead: "buffered (countRead s) = buffered s"
  by (simp add: buffered_def countRead_fields)

lemma fatal_fields:
  "nRead (fatal l s) = nRead s" "nWritten (fatal l s) = nWritten s"
  "workers (fatal l s) = workers s" "nSentToWorkers (fatal l s) = nSentToWorkers s"
  "paused (fatal l s) = paused s" "batch (fatal l s) = batch s"
  "inflight (fatal l s) = inflight s" "db (fatal l s) = db s"
  "exited (fatal l s) = Some 1"
  by (simp_all add: fatal_def)

lemma accounted_write_kv: "accounted (write_kv e s) = accounted s + 1"
  by (simp add: accounted_def buffered_write_kv write_kv_fields)

lemma accounted_countRead: "accounted (countRead s) = accounted s"
  by (simp add: accounted_def buffered_countRead countRead_fields)

lemma accounted_fatal: "accounted (fatal l s) = accounted s"
  by (simp add: accounted_def buffered_def fatal_fields)

lemma accounted_sendToWorker:
  "sendToWorker (Work i t x) s = Some s' \<Longrightarrow> accounted s' = accounted s + 1 \<and> nRead s' = nRead s"
proof -
  assume a: "sendToWorker (Work i t x) s = Some s'"
  then have ne: "workers s \<noteq> []"
    by (auto simp: sendToWorker_def split: if_splits)
  let ?w = "nSentToWorkers s mod length (workers s)"
  from ne have lt: "?w < length (workers s)" by simp
  from a ne have s': "s' = s\<lparr>workers := (workers s)[?w := (workers s ! ?w)\<lparr>inbox := inbox (workers s ! ?w) @ [Work i t x]\<rparr>],
                       nSentToWorkers := Suc (nSentToWorkers s)\<rparr>"
    by (simp add: sendToWorker_def Let_def)
  from queued_update [OF lt, of "(workers s ! ?w)\<lparr>inbox := inbox (workers s ! ?w) @ [Work i t x]\<rparr>"]
  have "queued (workers s') = queued (workers s) + 1"
    by (simp add: s')
  then show ?thesis by (simp add: s' accounted_def buffered_def)
qed

lemma onEndPage_accounted:
  "accounted s \<le> nRead s \<Longrightarrow> accounted (onEndPage E p s) \<le> nRead (onEndPage E p s)"
  by (auto simp: onEndPage_def Let_def accounted_write_kv accounted_countRead accounted_fatal
        countRead_fields write_kv_fields fatal_fields
      dest: accounted_sendToWorker split: option.splits)

lemma accounted_workers_update:
  "accounted (s\<lparr>workers := ws\<rparr>) = accounted s - int (queued (workers s)) + int (queued ws)"
  by (simp add: accounted_def buffered_def)

lemma onWorkerTurn_accounted:
  "accounted s \<le> nRead s \<Longrightarrow> accounted (onWorkerTurn E w r b ms s) \<le> nRead (onWorkerTurn E w r b ms s)"
proof (cases "w < length (workers s) \<and> online (workers s ! w)")
  case False
  assume "accounted s \<le> nRead s"
  with False show ?thesis by (auto simp: onWorkerTurn_def)
next
  case True
  assume inv: "accounted s \<le> nRead s"
  from True have lt: "w < length (workers s)" by simp
  show ?thesis
  proof (cases "inbox (workers s ! w)")
    case Nil
    with True inv show ?thesis by (simp add: onWorkerTurn_def)
  next
    case (Cons m rest)
    have q: "queued ((workers s)[w := wk]) + (if isWork m then 1 else 0) = queued (workers s)"
      if "inbox wk = rest" for wk
      using queued_update [OF lt, of wk] Cons that by auto
    show ?thesis
    proof (cases m)
      case Disconnect
      with True Cons inv q [of "(workers s ! w)\<lparr>inbox := rest, online := False\<rparr>"]
      show ?thesis
        by (simp add: onWorkerTurn_def accounted_workers_update)
    next
      case (Work i t x)
      show ?thesis
      proof (cases r)
        case (Ast a)
        with Work True Cons inv q [of "(workers s ! w)\<lparr>inbox := rest\<rparr>"]
        show ?thesis
          by (simp add: onWorkerTurn_def Let_def accounted_write_kv write_kv_fields
                accounted_workers_update)
      next
        case (ParseError e)
        with Work True Cons inv
          q [of "(workers s ! w)\<lparr>inbox := rest, wlog := wlog (workers s ! w) @ [(t, e)]\<rparr>"]
        show ?thesis
          by (simp add: onWorkerTurn_def Let_def accounted_write_kv write_kv_fields
                accounted_workers_update)
      next
        case Throws
        with Work True Cons inv q [of "(workers s ! w)\<lparr>inbox := rest, online := False\<rparr>"]
        show ?thesis
          by (simp add: onWorkerTurn_def Let_def accounted_workers_update)
      qed
    qed
  qed
qed

lemma batchCallback_accounted:
  "accounted s \<le> nRead s \<Longrightarrow> accounted (batchCallback i err s) \<le> nRead (batchCallback i err s)"
proof (cases "i < length (inflight s)")
  case False
  assume "accounted s \<le> nRead s"
  with False show ?thesis by (simp add: batchCallback_def)
next
  case True
  assume inv: "accounted s \<le> nRead s"
  from length_concat_remove [OF True] inv True show ?thesis
    by (cases err) (auto simp: batchCallback_def Let_def accounted_def buffered_def fatal_def)
qed

lemma step_accounted:
  "accounted s \<le> nRead s \<Longrightarrow> accounted (step E s ev) \<le> nRead (step E s ev)"
proof (cases "exited s = None")
  case False
  assume "accounted s \<le> nRead s"
  with False show ?thesis by (simp add: step_def)
next
  case True
  assume inv: "accounted s \<le> nRead s"
  show ?thesis
  proof (cases ev)
    case (EndPage p)
    with True inv show ?thesis by (simp add: step_def onEndPage_accounted)
  next
    case (WorkerTurn w r b ms)
    with True inv show ?thesis by (simp add: step_def onWorkerTurn_accounted)
  next
    case (BatchCallback i err)
    with True inv show ?thesis by (simp add: step_def batchCallback_accounted)
  next
    case StreamClose
    with True inv show ?thesis
      by (simp add: step_def onClose_def accounted_def buffered_def queued_map_disconnect)
  next
    case (XmlError m)
    with True inv show ?thesis
      by (simp add: step_def onXmlError_def accounted_def buffered_def)
  next
    case (Death w)
    with True inv show ?thesis
      by (simp add: step_def onDeath_def accounted_fatal fatal_fields)
  qed
qed

lemma exec_accounted:
  "accounted s \<le> nRead s \<Longrightarrow> accounted (exec E s evs) \<le> nRead (exec E s evs)"
  unfolding exec_def by (induction evs arbitrary: s) (simp_all add: step_accounted)

text \<open>
  C10. At every instant of every run, whatever the order of the events,
  \<open>nWritten \<le> nRead\<close>: what a flush counts was accepted, and counted in
  \<open>nRead\<close>, before.
\<close>

theorem nWritten_le_nRead:
  "nWritten (exec E (initial n) evs) \<le> nRead (exec E (initial n) evs)"
proof -
  have "accounted (initial n) \<le> nRead (initial n)"
    by (simp add: accounted_def buffered_def queued_def initial_def)
  then have "accounted (exec E (initial n) evs) \<le> nRead (exec E (initial n) evs)"
    by (rule exec_accounted)
  then show ?thesis by (simp add: accounted_def)
qed

section \<open>Flow control: the in-flight window\<close>

lemma list_all_remove_nth: "list_all P xs \<Longrightarrow> list_all P (take i xs @ drop (Suc i) xs)"
  by (auto simp: list_all_iff dest: in_set_takeD in_set_dropD)

lemma sendToWorker_fields:
  "sendToWorker m s = Some s' \<Longrightarrow>
   nRead s' = nRead s \<and> nWritten s' = nWritten s \<and> paused s' = paused s \<and>
   inflight s' = inflight s \<and> batch s' = batch s \<and> exited s' = exited s \<and> db s' = db s \<and>
   logged s' = logged s"
  by (auto simp: sendToWorker_def Let_def split: if_splits)

lemma flowInv_write_kv: "flowInv k s \<Longrightarrow> flowInv k (write_kv e s)"
  by (simp add: flowInv_def write_kv_def Let_def)

lemma flowInv_fatal: "flowInv k s \<Longrightarrow> flowInv k (fatal l s)"
  by (simp add: flowInv_def fatal_fields)

lemma flowInv_sendToWorker: "sendToWorker m s = Some s' \<Longrightarrow> flowInv k s' = flowInv k s"
  by (drule sendToWorker_fields) (simp add: flowInv_def)

lemma flowInv_workers_update: "flowInv k (s\<lparr>workers := ws\<rparr>) = flowInv k s"
  by (simp add: flowInv_def)

lemma flowInv_countRead:
  "flowInv k s \<Longrightarrow> flowInv (if paused s then Suc k else 0) (countRead s)"
  by (auto simp: flowInv_def countRead_def Let_def split: if_splits)

lemma flowInv_more: "flowInv k s \<Longrightarrow> paused s \<Longrightarrow> flowInv (Suc k) s"
  by (auto simp: flowInv_def)

lemma flowInv_flowing: "flowInv k s \<Longrightarrow> \<not> paused s \<Longrightarrow> flowInv 0 s"
  by (auto simp: flowInv_def)

lemma paused_write_kv:
  "paused (write_kv e s) = paused s"
  by (simp add: write_kv_fields)

lemma onEndPage_flowInv:
  assumes "flowInv k s"
  shows "flowInv (if paused s then Suc k else 0) (onEndPage E p s)"
proof -
  have same: "flowInv (if paused s then Suc k else 0) s"
    using assms by (simp add: flowInv_more flowInv_flowing)
  have counted: "flowInv (if paused s then Suc k else 0) (countRead s')"
    if "flowInv k s'" and "paused s' = paused s" for s'
    using flowInv_countRead [OF that(1)] that(2) by simp
  show ?thesis
  proof (cases "page_title p")
    case None
    with same show ?thesis by (simp add: onEndPage_def flowInv_fatal)
  next
    case title: (Some t)
    show ?thesis
    proof (cases "page_text p")
      case None
      with title same show ?thesis by (simp add: onEndPage_def Let_def flowInv_fatal)
    next
      case body: (Some x)
      show ?thesis
      proof (cases "namespaceTest E (trim t)")
        case True
        with title body same show ?thesis by (simp add: onEndPage_def Let_def)
      next
        case False
        show ?thesis
        proof (cases "redirectMatch (orEmpty x)")
          case (Some target)
          with title body False have "onEndPage E p s =
              countRead (write_kv
                \<lparr>key = capitalizeFirst E (trim t),
                 val = RedirectPage (page_id p) (trim t) (capitalizeFirst E target)
                         (if kWithSource E then Some (orEmpty x) else None)\<rparr> s)"
            by (simp add: onEndPage_def Let_def)
          with counted [OF flowInv_write_kv [OF assms] paused_write_kv] show ?thesis
            by simp
        next
          case None
          show ?thesis
          proof (cases "sendToWorker (Work (page_id p) (trim t) (orEmpty x)) s")
            case None
            with title body False \<open>redirectMatch (orEmpty x) = None\<close> same show ?thesis
              by (simp add: onEndPage_def Let_def flowInv_fatal)
          next
            case (Some s')
            with assms have "flowInv k s'" "paused s' = paused s"
              by (simp_all add: flowInv_sendToWorker sendToWorker_fields)
            then have "flowInv (if paused s then Suc k else 0) (countRead s')"
              by (rule counted)
            with title body False \<open>redirectMatch (orEmpty x) = None\<close> Some show ?thesis
              by (simp add: onEndPage_def Let_def)
          qed
        qed
      qed
    qed
  qed
qed

lemma onWorkerTurn_flowInv:
  "flowInv k s \<Longrightarrow> flowInv k (onWorkerTurn E w r b ms s)"
  by (auto simp: onWorkerTurn_def Let_def flowInv_write_kv flowInv_workers_update
      split: list.splits wmsg.splits parsed.splits)

lemma paused_onWorkerTurn: "paused (onWorkerTurn E w r b ms s) = paused s"
  by (auto simp: onWorkerTurn_def Let_def write_kv_fields
      split: list.splits wmsg.splits parsed.splits)

lemma batchCallback_flowInv:
  assumes inv: "flowInv k s" and slack: "int k < kBatchSize"
  shows "flowInv (if paused (batchCallback i err s) then k else 0) (batchCallback i err s)"
proof (cases "i < length (inflight s)")
  case False
  with inv show ?thesis by (auto simp: batchCallback_def flowInv_def split: if_splits)
next
  case True
  from inv have "list_all (\<lambda>b. kBatchSize \<le> int (length b)) (inflight s)"
    by (simp add: flowInv_def)
  with True have big: "kBatchSize \<le> int (length (inflight s ! i))"
    by (simp add: list_all_length)
  from inv have rest: "list_all (\<lambda>b. kBatchSize \<le> int (length b))
      (take i (inflight s) @ drop (Suc i) (inflight s))"
    unfolding flowInv_def by (intro list_all_remove_nth) simp
  show ?thesis
  proof (cases err)
    case (Some e)
    with True inv rest show ?thesis
      by (auto simp: batchCallback_def Let_def fatal_def flowInv_def split: if_splits)
  next
    case None
    with True inv rest big slack show ?thesis
      by (auto simp: batchCallback_def Let_def flowInv_def split: if_splits)
  qed
qed

lemma step_flowInv:
  assumes inv: "flowInv k s" and slack: "int k < kBatchSize"
  shows "flowInv (late E s k ev) (step E s ev)"
proof (cases "exited s = None")
  case False
  with inv show ?thesis
    by (cases ev) (auto simp: step_def late_def flowInv_more flowInv_flowing)
next
  case True
  show ?thesis
  proof (cases ev)
    case (EndPage p)
    with True onEndPage_flowInv [OF inv, of E p] show ?thesis
      by (simp add: step_def late_def)
  next
    case (WorkerTurn w r b ms)
    with True onWorkerTurn_flowInv [OF inv, of E w r b ms] show ?thesis
      by (auto simp: step_def late_def flowInv_flowing paused_onWorkerTurn)
  next
    case (BatchCallback i err)
    with True batchCallback_flowInv [OF inv slack, of i err] show ?thesis
      by (simp add: step_def late_def)
  next
    case StreamClose
    with True inv show ?thesis
      by (auto simp: step_def late_def onClose_def flowInv_def split: if_splits)
  next
    case (XmlError m)
    with True inv show ?thesis
      by (auto simp: step_def late_def onXmlError_def flowInv_def split: if_splits)
  next
    case (Death w)
    with True inv show ?thesis
      by (auto simp: step_def late_def onDeath_def fatal_def flowInv_def split: if_splits)
  qed
qed

lemma exec_flowInv:
  assumes slack: "int c < kBatchSize"
  shows "flowInv k s \<Longrightarrow> k \<le> c \<Longrightarrow> pausesWithin c E s k evs \<Longrightarrow>
         \<exists>k' \<le> c. flowInv k' (exec E s evs)"
proof (induction evs arbitrary: s k)
  case Nil
  then show ?case by (auto simp: exec_def)
next
  case (Cons ev evs)
  from Cons.prems slack have "int k < kBatchSize" by simp
  with Cons.prems have "flowInv (late E s k ev) (step E s ev)"
    by (intro step_flowInv)
  moreover from Cons.prems have "late E s k ev \<le> c"
    and "pausesWithin c E (step E s ev) (late E s k ev) evs" by simp_all
  ultimately have "\<exists>k' \<le> c. flowInv k' (exec E (step E s ev) evs)" by (intro Cons.IH)
  then show ?case by (simp add: exec_def)
qed

lemma flowInv_initial: "flowInv 0 (initial n)"
  by (simp add: flowInv_def initial_def kMaxPagesInFlight_def)

lemma in_flight_bounded:
  assumes "int c < kBatchSize" and "pausesWithin c E (initial n) 0 evs"
  shows "nRead (exec E (initial n) evs) - nWritten (exec E (initial n) evs)
           \<le> kMaxPagesInFlight + int c"
proof -
  from exec_flowInv [OF assms(1) flowInv_initial _ assms(2)]
  obtain k' where "k' \<le> c" and "flowInv k' (exec E (initial n) evs)" by auto
  then show ?thesis by (simp add: flowInv_def)
qed

lemma softInv_write_kv: "softInv k s \<Longrightarrow> softInv k (write_kv e s)"
  by (simp add: softInv_def write_kv_def Let_def)

lemma softInv_fatal: "softInv k s \<Longrightarrow> softInv k (fatal l s)"
  by (simp add: softInv_def fatal_fields)

lemma softInv_sendToWorker: "sendToWorker m s = Some s' \<Longrightarrow> softInv k s' = softInv k s"
  by (drule sendToWorker_fields) (simp add: softInv_def)

lemma softInv_workers_update: "softInv k (s\<lparr>workers := ws\<rparr>) = softInv k s"
  by (simp add: softInv_def)

lemma softInv_countRead:
  "softInv k s \<Longrightarrow> softInv (if paused s then Suc k else 0) (countRead s)"
  by (auto simp: softInv_def countRead_def Let_def split: if_splits)

lemma softInv_more: "softInv k s \<Longrightarrow> paused s \<Longrightarrow> softInv (Suc k) s"
  by (auto simp: softInv_def)

lemma softInv_flowing: "softInv k s \<Longrightarrow> \<not> paused s \<Longrightarrow> softInv 0 s"
  by (auto simp: softInv_def)

lemma onEndPage_softInv:
  assumes "softInv k s"
  shows "softInv (if paused s then Suc k else 0) (onEndPage E p s)"
proof -
  have same: "softInv (if paused s then Suc k else 0) s"
    using assms by (simp add: softInv_more softInv_flowing)
  have counted: "softInv (if paused s then Suc k else 0) (countRead s')"
    if "softInv k s'" and "paused s' = paused s" for s'
    using softInv_countRead [OF that(1)] that(2) by simp
  show ?thesis
  proof (cases "page_title p")
    case None
    with same show ?thesis by (simp add: onEndPage_def softInv_fatal)
  next
    case title: (Some t)
    show ?thesis
    proof (cases "page_text p")
      case None
      with title same show ?thesis by (simp add: onEndPage_def Let_def softInv_fatal)
    next
      case body: (Some x)
      show ?thesis
      proof (cases "namespaceTest E (trim t)")
        case True
        with title body same show ?thesis by (simp add: onEndPage_def Let_def)
      next
        case False
        show ?thesis
        proof (cases "redirectMatch (orEmpty x)")
          case (Some target)
          with title body False have "onEndPage E p s =
              countRead (write_kv
                \<lparr>key = capitalizeFirst E (trim t),
                 val = RedirectPage (page_id p) (trim t) (capitalizeFirst E target)
                         (if kWithSource E then Some (orEmpty x) else None)\<rparr> s)"
            by (simp add: onEndPage_def Let_def)
          with counted [OF softInv_write_kv [OF assms] paused_write_kv] show ?thesis
            by simp
        next
          case None
          show ?thesis
          proof (cases "sendToWorker (Work (page_id p) (trim t) (orEmpty x)) s")
            case None
            with title body False \<open>redirectMatch (orEmpty x) = None\<close> same show ?thesis
              by (simp add: onEndPage_def Let_def softInv_fatal)
          next
            case (Some s')
            with assms have "softInv k s'" "paused s' = paused s"
              by (simp_all add: softInv_sendToWorker sendToWorker_fields)
            then have "softInv (if paused s then Suc k else 0) (countRead s')"
              by (rule counted)
            with title body False \<open>redirectMatch (orEmpty x) = None\<close> Some show ?thesis
              by (simp add: onEndPage_def Let_def)
          qed
        qed
      qed
    qed
  qed
qed

lemma onWorkerTurn_softInv:
  "softInv k s \<Longrightarrow> softInv k (onWorkerTurn E w r b ms s)"
  by (auto simp: onWorkerTurn_def Let_def softInv_write_kv softInv_workers_update
      split: list.splits wmsg.splits parsed.splits)

lemma batchCallback_softInv:
  assumes inv: "softInv k s"
  shows "softInv (if paused (batchCallback i err s) then k else 0) (batchCallback i err s)"
proof (cases "i < length (inflight s)")
  case False
  with inv show ?thesis by (auto simp: batchCallback_def softInv_def split: if_splits)
next
  case True
  show ?thesis
  proof (cases err)
    case (Some e)
    with True inv show ?thesis
      by (auto simp: batchCallback_def Let_def fatal_def softInv_def split: if_splits)
  next
    case None
    with True inv show ?thesis
      by (auto simp: batchCallback_def Let_def softInv_def split: if_splits)
  qed
qed

lemma step_softInv:
  assumes inv: "softInv k s"
  shows "softInv (late E s k ev) (step E s ev)"
proof (cases "exited s = None")
  case False
  with inv show ?thesis
    by (cases ev) (auto simp: step_def late_def softInv_more softInv_flowing)
next
  case True
  show ?thesis
  proof (cases ev)
    case (EndPage p)
    with True onEndPage_softInv [OF inv, of E p] show ?thesis
      by (simp add: step_def late_def)
  next
    case (WorkerTurn w r b ms)
    with True onWorkerTurn_softInv [OF inv, of E w r b ms] show ?thesis
      by (auto simp: step_def late_def softInv_flowing paused_onWorkerTurn)
  next
    case (BatchCallback i err)
    with True batchCallback_softInv [OF inv, of i err] show ?thesis
      by (simp add: step_def late_def)
  next
    case StreamClose
    with True inv show ?thesis
      by (auto simp: step_def late_def onClose_def softInv_def split: if_splits)
  next
    case (XmlError m)
    with True inv show ?thesis
      by (auto simp: step_def late_def onXmlError_def softInv_def split: if_splits)
  next
    case (Death w)
    with True inv show ?thesis
      by (auto simp: step_def late_def onDeath_def fatal_def softInv_def split: if_splits)
  qed
qed

lemma exec_softInv:
  "softInv k s \<Longrightarrow> softInv (lateCount E s k evs) (exec E s evs)"
proof (induction evs arbitrary: s k)
  case Nil
  then show ?case by (simp add: exec_def)
next
  case (Cons ev evs)
  from Cons.prems have "softInv (late E s k ev) (step E s ev)"
    by (rule step_softInv)
  then have "softInv (lateCount E (step E s ev) (late E s k ev) evs) (exec E (step E s ev) evs)"
    by (rule Cons.IH)
  then show ?case by (simp add: exec_def)
qed

lemma softInv_initial: "softInv 0 (initial n)"
  by (simp add: softInv_def initial_def kMaxPagesInFlight_def)

lemma in_flight_bounded_by_late:
  "nRead (exec E (initial n) evs) - nWritten (exec E (initial n) evs)
     \<le> kMaxPagesInFlight + 1 + int (lateCount E (initial n) 0 evs)"
  using exec_softInv [OF softInv_initial, of E n evs] by (simp add: softInv_def)

lemma pause_when_full:
  assumes "exited s = None"
    and "nRead (step E s (EndPage p)) = nRead s + 1"
    and "nRead (step E s (EndPage p)) - nWritten (step E s (EndPage p)) \<ge> kMaxPagesInFlight"
  shows "paused (step E s (EndPage p))"
  using assms
  by (auto simp: step_def onEndPage_def Let_def countRead_def write_kv_fields fatal_fields
      dest: sendToWorker_fields split: option.splits if_splits)

lemma resume_when_drained:
  assumes "exited s = None" and "i < length (inflight s)"
  shows "nWritten (step E s (BatchCallback i None)) = nWritten s + int (length (inflight s ! i)) \<and>
         (nRead (step E s (BatchCallback i None)) - nWritten (step E s (BatchCallback i None))
            \<le> kMaxPagesInFlight \<longrightarrow> \<not> paused (step E s (BatchCallback i None)))"
  using assms by (simp add: step_def batchCallback_def Let_def)

section \<open>Evaluating examples\<close>

lemmas string_defs = js_def asciiUpper_def asciiLower_def toUpperCase_def isLineTerminator_def
  isWhiteSpace_def trim_def

lemmas regex_defs = canonicalize_def matchesChar_def matchesLetter_def matchesWord_def
  categoryEn_def categoryRu_def lookahead_def namespaceTest_def matchesAscii_def
  optionalColon_def redirectMatch_def

lemmas handler_defs = kMaxPagesInFlight_def kBatchSize_def fatal_def write_kv_def applyBatch_def
  batchCallback_def initial_def onDeath_def sendToWorker_def countRead_def onEndPage_def
  orEmpty_def onClose_def onXmlError_def reply_def onWorkerTurn_def step_def plainEnv_def
  examplePage_def Let_def

lemma exec_Nil: "exec E s [] = s"
  by (simp add: exec_def)

lemma exec_Cons: "exec E s (ev # evs) = exec E (step E s ev) evs"
  by (simp add: exec_def)

lemma exec_append: "exec E s (xs @ ys) = exec E (exec E s xs) ys"
  by (simp add: exec_def)

lemma exec_snoc: "exec E s (xs @ [ev]) = step E (exec E s xs) ev"
  by (simp add: exec_def)

lemma replicate_snoc: "replicate (Suc k) x = replicate k x @ [x]"
  by (simp add: replicate_append_same)

lemma step_page:
  assumes "trim (js t) = js t" and "\<not> namespaceTest plainEnv (js t)"
  shows "step plainEnv (midRun t k 0) (EndPage (examplePage t ''Hello'')) = midRun t (Suc k) 0"
proof -
  have "redirectMatch (js ''Hello'') = None"
    by (simp add: string_defs regex_defs)
  with assms show ?thesis
    by (auto simp: midRun_def workFor_def step_def onEndPage_def examplePage_def orEmpty_def
          sendToWorker_def countRead_def kMaxPagesInFlight_def Let_def replicate_append_same)
qed

lemma initial_midRun: "initial (Suc 0) = midRun t 0 0"
  by (simp add: initial_def midRun_def)

lemma exec_pages:
  assumes "trim (js t) = js t" and "\<not> namespaceTest plainEnv (js t)"
  shows "exec plainEnv (initial (Suc 0)) (replicate k (EndPage (examplePage t ''Hello''))) =
         midRun t k 0"
proof (induction k)
  case 0
  then show ?case by (simp add: exec_Nil initial_midRun)
next
  case (Suc k)
  then show ?case
    by (simp only: replicate_snoc exec_snoc) (simp add: step_page [OF assms])
qed

lemma pausesWithin_pages:
  assumes "trim (js t) = js t" and "\<not> namespaceTest plainEnv (js t)"
  shows "k + m \<le> 10099 \<Longrightarrow>
    pausesWithin 99 plainEnv (midRun t k 0) (k - 10000)
      (replicate m (EndPage (examplePage t ''Hello'')) @ rest) =
    pausesWithin 99 plainEnv (midRun t (k + m) 0) (k + m - 10000) rest"
proof (induction m arbitrary: k)
  case 0
  then show ?case by simp
next
  case (Suc m)
  have l: "late plainEnv (midRun t k 0) (k - 10000) (EndPage (examplePage t ''Hello'')) =
        Suc k - 10000"
    by (auto simp: late_def midRun_def)
  from Suc.prems have "Suc k - 10000 \<le> 99" by simp
  with Suc.IH [of "Suc k"] Suc.prems l show ?case
    by (simp add: step_page [OF assms])
qed

lemma lateCount_pages:
  assumes "trim (js t) = js t" and "\<not> namespaceTest plainEnv (js t)"
  shows "lateCount plainEnv (midRun t k 0) (k - 10000)
           (replicate m (EndPage (examplePage t ''Hello''))) = k + m - 10000"
proof (induction m arbitrary: k)
  case 0
  then show ?case by simp
next
  case (Suc m)
  have l: "late plainEnv (midRun t k 0) (k - 10000) (EndPage (examplePage t ''Hello'')) =
        Suc k - 10000"
    by (auto simp: late_def midRun_def)
  from Suc.IH [of "Suc k"] l show ?case
    by (simp add: step_page [OF assms])
qed

lemma pausesWithin_no_pages:
  "\<forall>ev \<in> set evs. \<forall>p. ev \<noteq> EndPage p \<Longrightarrow> k \<le> c \<Longrightarrow> pausesWithin c E s k evs"
proof (induction evs arbitrary: s k)
  case Nil
  then show ?case by simp
next
  case (Cons ev evs)
  then have "late E s k ev \<le> k"
    by (cases ev) (simp_all add: late_def)
  with Cons show ?case by simp
qed

lemma step_turn:
  assumes "j < k" and "j < 99"
  shows "step plainEnv (midRun t k j) (WorkerTurn 0 (Ast []) 0 0) = midRun t k (Suc j)"
proof -
  from assms have "k - j = Suc (k - Suc j)" by simp
  then have "replicate (k - j) (workFor t) = workFor t # replicate (k - Suc j) (workFor t)"
    by (simp only: replicate_Suc)
  with assms show ?thesis
    by (simp add: midRun_def workFor_def entryFor_def step_def onWorkerTurn_def reply_def
          write_kv_def kBatchSize_def plainEnv_def Let_def replicate_append_same)
qed

lemma exec_turns:
  "j \<le> k \<Longrightarrow> j \<le> 99 \<Longrightarrow>
   exec plainEnv (midRun t k 0) (replicate j (WorkerTurn 0 (Ast []) 0 0)) = midRun t k j"
proof (induction j)
  case 0
  then show ?case by (simp add: exec_Nil)
next
  case (Suc j)
  then show ?case
    by (simp only: replicate_snoc exec_snoc) (simp add: step_turn)
qed

lemma step_flush:
  assumes "100 \<le> k"
  shows "step plainEnv (midRun t k 99) (WorkerTurn 0 (Ast []) 0 0) = flushing t k"
proof -
  from assms have "k - 99 = Suc (k - 100)" by simp
  then have "replicate (k - 99) (workFor t) = workFor t # replicate (k - 100) (workFor t)"
    by (simp only: replicate_Suc)
  moreover have "replicate 99 (entryFor t) @ [entryFor t] = replicate 100 (entryFor t)"
    by (simp only: replicate_snoc [symmetric]) simp
  ultimately show ?thesis
    by (simp add: midRun_def flushing_def workFor_def entryFor_def step_def onWorkerTurn_def
          reply_def write_kv_def kBatchSize_def plainEnv_def Let_def)
qed

lemma exec_pagesThenTurns:
  assumes "trim (js t) = js t" and "\<not> namespaceTest plainEnv (js t)"
    and "100 \<le> k"
  shows "exec plainEnv (initial (Suc 0)) (pagesThenTurns t k 100) = flushing t k"
proof -
  have "replicate 100 (WorkerTurn 0 (Ast []) 0 0) =
        replicate 99 (WorkerTurn 0 (Ast []) 0 0) @ [WorkerTurn 0 (Ast []) 0 0]"
    by (simp only: replicate_snoc [symmetric]) simp
  with assms show ?thesis
    by (simp add: pagesThenTurns_def exec_append exec_pages exec_turns exec_Cons exec_Nil
          step_flush)
qed

lemma applyBatch_replicate:
  "applyBatch (replicate (Suc n) e) m = m(key e \<mapsto> val e)"
  by (induction n arbitrary: m) (simp_all add: applyBatch_def)

lemma step_callback:
  assumes "k \<le> 10100"
  shows "step plainEnv (flushing t k) (BatchCallback 0 None) = flushed t k"
proof -
  have "applyBatch (replicate 100 (entryFor t)) Map.empty =
        [key (entryFor t) \<mapsto> val (entryFor t)]"
    using applyBatch_replicate [of 99 "entryFor t" Map.empty] by simp
  with assms show ?thesis
    by (simp add: flushing_def flushed_def step_def batchCallback_def kMaxPagesInFlight_def
          Let_def entryFor_def)
qed

lemma pausesWithin_pagesThenTurns:
  assumes "trim (js t) = js t" and "\<not> namespaceTest plainEnv (js t)" and "k \<le> 10099"
  shows "pausesWithin 99 plainEnv (initial (Suc 0)) 0
           (pagesThenTurns t k j @ [BatchCallback 0 None])"
proof -
  have "pausesWithin 99 plainEnv (midRun t k 0) (k - 10000)
          (replicate j (WorkerTurn 0 (Ast []) 0 0) @ [BatchCallback 0 None])"
    using assms(3) by (intro pausesWithin_no_pages) auto
  with pausesWithin_pages [OF assms(1,2), of 0 k] assms(3) show ?thesis
    by (simp add: pagesThenTurns_def initial_midRun [of t])
qed

lemma plain_Test: "trim (js ''Test'') = js ''Test''" "\<not> namespaceTest plainEnv (js ''Test'')"
  by (simp_all add: string_defs regex_defs plainEnv_def)

text \<open>
  C4 (as amended). \<open>stream.pause()\<close> stops the source, not the pages that the source
  has already handed to the XML reader, and the bound depends on how many of them are
  delivered while the stream is paused. At every instant of every run
  \<open>nRead - nWritten \<le> kMaxPagesInFlight + 1 + k\<close>, where \<open>k\<close> is the number of
  pages delivered since the stream last flowed. And in a run in which at most \<open>c\<close>
  pages are delivered while the stream is paused, where \<open>c < kBatchSize\<close> (\<open>c = 0\<close>:
  \<open>pause()\<close> stops the pages at once), at every instant
  \<open>nRead - nWritten \<le> kMaxPagesInFlight + c\<close>, and so
  \<open>nRead - nWritten \<le> kMaxPagesInFlight + kBatchSize - 1\<close>. In every state: when the
  handler of a page accepts it (counts it in \<open>nRead\<close>) and \<open>nRead - nWritten\<close> is then
  at least \<open>kMaxPagesInFlight\<close>, the stream is paused; and the callback of a batch that
  succeeded adds the size of the batch to \<open>nWritten\<close> and, when \<open>nRead - nWritten\<close> is
  then at most \<open>kMaxPagesInFlight\<close>, resumes the stream.
\<close>

theorem flow_control:
  "nRead (exec E (initial n) evs) - nWritten (exec E (initial n) evs)
     \<le> kMaxPagesInFlight + 1 + int (lateCount E (initial n) 0 evs) \<and>
   (int c < kBatchSize \<and> pausesWithin c E (initial n) 0 evs \<longrightarrow>
      nRead (exec E (initial n) evs) - nWritten (exec E (initial n) evs)
        \<le> kMaxPagesInFlight + int c \<and>
      nRead (exec E (initial n) evs) - nWritten (exec E (initial n) evs)
        \<le> kMaxPagesInFlight + kBatchSize - 1) \<and>
   (exited s = None \<and> nRead (step E s (EndPage p)) = nRead s + 1 \<and>
    kMaxPagesInFlight \<le> nRead (step E s (EndPage p)) - nWritten (step E s (EndPage p)) \<longrightarrow>
      paused (step E s (EndPage p))) \<and>
   (exited t = None \<and> i < length (inflight t) \<longrightarrow>
      nWritten (step E t (BatchCallback i None)) = nWritten t + int (length (inflight t ! i)) \<and>
      (nRead (step E t (BatchCallback i None)) - nWritten (step E t (BatchCallback i None))
         \<le> kMaxPagesInFlight \<longrightarrow>
       \<not> paused (step E t (BatchCallback i None))))"
proof (intro conjI impI)
  show "nRead (exec E (initial n) evs) - nWritten (exec E (initial n) evs)
     \<le> kMaxPagesInFlight + 1 + int (lateCount E (initial n) 0 evs)"
    by (rule in_flight_bounded_by_late)
next
  assume a: "int c < kBatchSize \<and> pausesWithin c E (initial n) 0 evs"
  then show b: "nRead (exec E (initial n) evs) - nWritten (exec E (initial n) evs)
      \<le> kMaxPagesInFlight + int c"
    by (intro in_flight_bounded) simp_all
  with a show "nRead (exec E (initial n) evs) - nWritten (exec E (initial n) evs)
      \<le> kMaxPagesInFlight + kBatchSize - 1"
    by simp
next
  assume "exited s = None \<and> nRead (step E s (EndPage p)) = nRead s + 1 \<and>
    kMaxPagesInFlight \<le> nRead (step E s (EndPage p)) - nWritten (step E s (EndPage p))"
  then show "paused (step E s (EndPage p))"
    using pause_when_full [of s E p] by simp
next
  assume a: "exited t = None \<and> i < length (inflight t)"
  then show "nWritten (step E t (BatchCallback i None)) = nWritten t + int (length (inflight t ! i))"
    using resume_when_drained [of t i E] by simp
  assume "nRead (step E t (BatchCallback i None)) - nWritten (step E t (BatchCallback i None))
         \<le> kMaxPagesInFlight"
  with a show "\<not> paused (step E t (BatchCallback i None))"
    using resume_when_drained [of t i E] by simp
qed

theorem flow_control_witness:
  "pausesWithin 99 plainEnv (initial (Suc 0)) 0
     (pagesThenTurns ''Test'' 10099 100 @ [BatchCallback 0 None]) \<and>
   nRead (exec plainEnv (initial (Suc 0)) (pagesThenTurns ''Test'' 10099 100 @ [BatchCallback 0 None]))
     - nWritten (exec plainEnv (initial (Suc 0))
         (pagesThenTurns ''Test'' 10099 100 @ [BatchCallback 0 None]))
     \<le> kMaxPagesInFlight + 99 \<and>
   nRead (exec plainEnv (initial (Suc 0)) (pagesThenTurns ''Test'' 10099 100 @ [BatchCallback 0 None]))
     - nWritten (exec plainEnv (initial (Suc 0))
         (pagesThenTurns ''Test'' 10099 100 @ [BatchCallback 0 None]))
     \<le> kMaxPagesInFlight + kBatchSize - 1 \<and>
   exec plainEnv (initial (Suc 0)) (replicate 9999 (EndPage (examplePage ''Test'' ''Hello''))) =
     midRun ''Test'' 9999 0 \<and>
   \<not> paused (midRun ''Test'' 9999 0) \<and>
   paused (step plainEnv (midRun ''Test'' 9999 0) (EndPage (examplePage ''Test'' ''Hello''))) \<and>
   exec plainEnv (initial (Suc 0)) (replicate 10099 (EndPage (examplePage ''Test'' ''Hello''))) =
     midRun ''Test'' 10099 0 \<and>
   nRead (midRun ''Test'' 10099 0) - nWritten (midRun ''Test'' 10099 0) =
     kMaxPagesInFlight + kBatchSize - 1 \<and>
   exec plainEnv (initial (Suc 0)) (pagesThenTurns ''Test'' 10099 100) = flushing ''Test'' 10099 \<and>
   paused (flushing ''Test'' 10099) \<and>
   nWritten (step plainEnv (flushing ''Test'' 10099) (BatchCallback 0 None)) = 100 \<and>
   \<not> paused (step plainEnv (flushing ''Test'' 10099) (BatchCallback 0 None))"
proof -
  let ?p = "EndPage (examplePage ''Test'' ''Hello'')"
  have s: "exited (midRun ''Test'' 9999 0) = None \<and>
      nRead (step plainEnv (midRun ''Test'' 9999 0) ?p) = nRead (midRun ''Test'' 9999 0) + 1 \<and>
      kMaxPagesInFlight \<le>
        nRead (step plainEnv (midRun ''Test'' 9999 0) ?p) -
        nWritten (step plainEnv (midRun ''Test'' 9999 0) ?p)"
    by (simp add: step_page [OF plain_Test]) (simp add: midRun_def kMaxPagesInFlight_def)
  have t: "exited (flushing ''Test'' 10099) = None \<and> 0 < length (inflight (flushing ''Test'' 10099))"
    by (simp add: flushing_def)
  have d: "nRead (step plainEnv (flushing ''Test'' 10099) (BatchCallback 0 None)) -
        nWritten (step plainEnv (flushing ''Test'' 10099) (BatchCallback 0 None))
        \<le> kMaxPagesInFlight"
    by (simp add: step_callback flushed_def kMaxPagesInFlight_def)
  have l: "int (length (inflight (flushing ''Test'' 10099) ! 0)) = 100"
    "nWritten (flushing ''Test'' 10099) = 0"
    "paused (flushing ''Test'' 10099)" "\<not> paused (midRun ''Test'' 9999 0)"
    "nRead (midRun ''Test'' 10099 0) - nWritten (midRun ''Test'' 10099 0) =
       kMaxPagesInFlight + kBatchSize - 1"
    "int 99 < kBatchSize"
    by (simp_all add: flushing_def midRun_def kMaxPagesInFlight_def kBatchSize_def)
  show ?thesis
    using flow_control [of plainEnv "Suc 0"
        "pagesThenTurns ''Test'' 10099 100 @ [BatchCallback 0 None]" 99
        "midRun ''Test'' 9999 0" "examplePage ''Test'' ''Hello''" "flushing ''Test'' 10099" 0]
      pausesWithin_pagesThenTurns [OF plain_Test, of 10099 100] s t d l
      exec_pagesThenTurns [OF plain_Test, of 10099] exec_pages [OF plain_Test]
    by simp
qed

text \<open>
  The claim as stated (C4) fails. One worker and 10100 pages \<open>Test\<close>, closed by the XML
  reader before any worker has replied: the 10000th page pauses the stream, the hundred
  pages that the reader still holds are counted all the same, and
  \<open>nRead - nWritten = 10100\<close>, above \<open>kMaxPagesInFlight + kBatchSize - 1 = 10099\<close>.
\<close>

theorem flow_control_counterexample:
  "paused (exec plainEnv (initial (Suc 0))
     (replicate 10000 (EndPage (examplePage ''Test'' ''Hello'')))) \<and>
   lateCount plainEnv (initial (Suc 0)) 0
     (replicate 10100 (EndPage (examplePage ''Test'' ''Hello''))) = 100 \<and>
   nRead (exec plainEnv (initial (Suc 0))
     (replicate 10100 (EndPage (examplePage ''Test'' ''Hello'')))) = 10100 \<and>
   nWritten (exec plainEnv (initial (Suc 0))
     (replicate 10100 (EndPage (examplePage ''Test'' ''Hello'')))) = 0 \<and>
   exited (exec plainEnv (initial (Suc 0))
     (replicate 10100 (EndPage (examplePage ''Test'' ''Hello'')))) = None \<and>
   \<not> nRead (exec plainEnv (initial (Suc 0))
         (replicate 10100 (EndPage (examplePage ''Test'' ''Hello''))))
       - nWritten (exec plainEnv (initial (Suc 0))
         (replicate 10100 (EndPage (examplePage ''Test'' ''Hello''))))
       \<le> kMaxPagesInFlight + kBatchSize - 1"
proof -
  have "lateCount plainEnv (initial (Suc 0)) 0
     (replicate 10100 (EndPage (examplePage ''Test'' ''Hello''))) = 100"
    using lateCount_pages [OF plain_Test, of 0 10100]
    by (simp add: initial_midRun [of "''Test''"])
  then show ?thesis
    by (simp add: exec_pages [OF plain_Test] midRun_def kMaxPagesInFlight_def kBatchSize_def)
qed

section \<open>Round robin\<close>

lemma exited_step: "exited (step E s ev) = None \<Longrightarrow> exited s = None"
  by (cases "exited s") (simp_all add: step_def)

lemma exited_exec: "exited (exec E s evs) = None \<Longrightarrow> exited s = None"
proof (induction evs arbitrary: s)
  case Nil
  then show ?case by (simp add: exec_Nil)
next
  case (Cons ev evs)
  then have "exited (step E s ev) = None" by (simp add: exec_Cons)
  then show ?case by (rule exited_step)
qed

lemma exited_exec_prefix: "exited (exec E s (xs @ ys)) = None \<Longrightarrow> exited (exec E s xs) = None"
  by (simp add: exec_append exited_exec)

lemma length_workers_write_kv: "length (workers (write_kv e s)) = length (workers s)"
  by (simp add: write_kv_fields)

lemma length_workers_step: "length (workers (step E s ev)) = length (workers s)"
proof (cases "exited s = None")
  case False
  then show ?thesis by (simp add: step_def)
next
  case True
  show ?thesis
  proof (cases ev)
    case (EndPage p)
    with True show ?thesis
      by (auto simp: step_def onEndPage_def Let_def fatal_fields countRead_fields write_kv_fields
            sendToWorker_def split: option.splits if_splits)
  next
    case (WorkerTurn w r b ms)
    with True show ?thesis
      by (auto simp: step_def onWorkerTurn_def Let_def write_kv_fields
          split: list.splits wmsg.splits parsed.splits)
  next
    case (BatchCallback i err)
    with True show ?thesis
      by (auto simp: step_def batchCallback_def Let_def fatal_def split: option.splits)
  next
    case StreamClose
    with True show ?thesis by (simp add: step_def onClose_def)
  next
    case (XmlError m)
    with True show ?thesis by (simp add: step_def onXmlError_def)
  next
    case (Death w)
    with True show ?thesis by (simp add: step_def onDeath_def fatal_fields)
  qed
qed

lemma length_workers_exec: "length (workers (exec E s evs)) = length (workers s)"
  unfolding exec_def by (induction evs arbitrary: s) (simp_all add: length_workers_step)

lemma onEndPage_dispatch:
  assumes "page_title p = Some t" and "page_text p = Some x"
    and "\<not> namespaceTest E (trim t)" and "redirectMatch (orEmpty x) = None"
    and "workers s \<noteq> []"
  shows "onEndPage E p s =
     countRead (s\<lparr>workers := (workers s)[nSentToWorkers s mod length (workers s) :=
                     (workers s ! (nSentToWorkers s mod length (workers s)))
                       \<lparr>inbox := inbox (workers s ! (nSentToWorkers s mod length (workers s))) @
                          [Work (page_id p) (trim t) (orEmpty x)]\<rparr>],
                   nSentToWorkers := Suc (nSentToWorkers s)\<rparr>)"
  using assms by (simp add: onEndPage_def sendToWorker_def Let_def)

lemma onEndPage_not_dispatch:
  assumes "\<not> dispatches E (EndPage p)"
  shows "workers (onEndPage E p s) = workers s \<and>
         nSentToWorkers (onEndPage E p s) = nSentToWorkers s"
  using assms
  by (auto simp: onEndPage_def Let_def fatal_fields countRead_fields write_kv_fields
      split: option.splits)

lemma nSent_step:
  assumes "exited (step E s ev) = None"
  shows "nSentToWorkers (step E s ev) = nSentToWorkers s + (if dispatches E ev then 1 else 0)"
proof -
  from assms have live: "exited s = None" by (rule exited_step)
  show ?thesis
  proof (cases ev)
    case (EndPage p)
    show ?thesis
    proof (cases "dispatches E (EndPage p)")
      case False
      with EndPage live onEndPage_not_dispatch [OF False, of s] show ?thesis
        by (simp add: step_def)
    next
      case True
      then obtain t x where p: "page_title p = Some t" "page_text p = Some x"
        "\<not> namespaceTest E (trim t)" "redirectMatch (orEmpty x) = None"
        by (auto split: option.splits)
      have "workers s \<noteq> []"
      proof
        assume "workers s = []"
        with p live EndPage have "exited (step E s ev) = Some 1"
          by (simp add: step_def onEndPage_def sendToWorker_def Let_def fatal_fields)
        with assms show False by simp
      qed
      with EndPage live True onEndPage_dispatch [OF p this] show ?thesis
        by (simp add: step_def countRead_fields)
    qed
  next
    case (WorkerTurn w r b ms)
    with live show ?thesis
      by (auto simp: step_def onWorkerTurn_def Let_def write_kv_fields
          split: list.splits wmsg.splits parsed.splits)
  next
    case (BatchCallback i err)
    with live show ?thesis
      by (auto simp: step_def batchCallback_def Let_def fatal_def split: option.splits)
  next
    case StreamClose
    with live show ?thesis by (simp add: step_def onClose_def)
  next
    case (XmlError m)
    with live show ?thesis by (simp add: step_def onXmlError_def)
  next
    case (Death w)
    with live show ?thesis by (simp add: step_def onDeath_def fatal_fields)
  qed
qed

lemma nSent_exec:
  "exited (exec E s evs) = None \<Longrightarrow>
   nSentToWorkers (exec E s evs) = nSentToWorkers s + length (filter (dispatches E) evs)"
proof (induction evs arbitrary: s)
  case Nil
  then show ?case by (simp add: exec_Nil)
next
  case (Cons ev evs)
  then have later: "exited (exec E (step E s ev) evs) = None" by (simp add: exec_Cons)
  then have "exited (step E s ev) = None" by (rule exited_exec)
  then have "nSentToWorkers (step E s ev) = nSentToWorkers s + (if dispatches E ev then 1 else 0)"
    by (rule nSent_step)
  with Cons.IH [OF later] show ?case by (simp add: exec_Cons)
qed

text \<open>
  C9. In a run with \<open>n > 0\<close> workers that has not exited, the send counter equals
  the number of records dispatched so far, whatever else has happened. A page that is
  accepted and is no redirect is then sent to the worker at index (counter mod \<open>n\<close>),
  to no other worker, and the counter goes up by one; a redirect or a dropped page
  changes neither the counter nor any worker's inbox.
\<close>

theorem round_robin:
  assumes pool: "0 < n"
    and live: "exited (exec E (initial n) (evs @ [EndPage p])) = None"
    and title: "page_title p = Some t" and body: "page_text p = Some x"
  shows "nSentToWorkers (exec E (initial n) evs) = length (filter (dispatches E) evs) \<and>
         length (workers (exec E (initial n) evs)) = n \<and>
         (if \<not> namespaceTest E (trim t) \<and> redirectMatch (orEmpty x) = None
          then workers (exec E (initial n) (evs @ [EndPage p])) =
                 (workers (exec E (initial n) evs))
                   [length (filter (dispatches E) evs) mod n :=
                      (workers (exec E (initial n) evs) ! (length (filter (dispatches E) evs) mod n))
                        \<lparr>inbox := inbox (workers (exec E (initial n) evs) !
                                           (length (filter (dispatches E) evs) mod n)) @
                                   [Work (page_id p) (trim t) (orEmpty x)]\<rparr>] \<and>
               nSentToWorkers (exec E (initial n) (evs @ [EndPage p])) =
                 Suc (length (filter (dispatches E) evs))
          else workers (exec E (initial n) (evs @ [EndPage p])) = workers (exec E (initial n) evs) \<and>
               nSentToWorkers (exec E (initial n) (evs @ [EndPage p])) =
                 length (filter (dispatches E) evs))"
proof -
  let ?s = "exec E (initial n) evs"
  let ?i = "length (filter (dispatches E) evs)"
  from live have before: "exited ?s = None" by (rule exited_exec_prefix)
  then have count: "nSentToWorkers ?s = ?i"
    using nSent_exec [of E "initial n" evs] by (simp add: initial_def)
  have size: "length (workers ?s) = n"
    by (simp add: length_workers_exec initial_def)
  with pool have ne: "workers ?s \<noteq> []" by auto
  have last: "exec E (initial n) (evs @ [EndPage p]) = onEndPage E p ?s"
    using before by (simp add: exec_snoc step_def)
  show ?thesis
  proof (cases "\<not> namespaceTest E (trim t) \<and> redirectMatch (orEmpty x) = None")
    case True
    then have "onEndPage E p ?s =
       countRead (?s\<lparr>workers := (workers ?s)[nSentToWorkers ?s mod length (workers ?s) :=
                     (workers ?s ! (nSentToWorkers ?s mod length (workers ?s)))
                       \<lparr>inbox := inbox (workers ?s ! (nSentToWorkers ?s mod length (workers ?s))) @
                          [Work (page_id p) (trim t) (orEmpty x)]\<rparr>],
                   nSentToWorkers := Suc (nSentToWorkers ?s)\<rparr>)"
      using onEndPage_dispatch [OF title body _ _ ne] by simp
    with True count size last show ?thesis
      by (simp add: countRead_fields)
  next
    case False
    with title body have "\<not> dispatches E (EndPage p)" by auto
    from onEndPage_not_dispatch [OF this, of ?s] False count size last show ?thesis
      by simp
  qed
qed

theorem round_robin_witness:
  "nSentToWorkers (exec plainEnv (initial 2) fourPages) = 2 \<and>
   workers (exec plainEnv (initial 2) fourPages) =
     [\<lparr>inbox = [Work None (js ''A'') (js ''a'')], online = True, wlog = []\<rparr>,
      \<lparr>inbox = [Work None (js ''B'') (js ''b'')], online = True, wlog = []\<rparr>] \<and>
   workers (exec plainEnv (initial 2) (fourPages @ [EndPage (examplePage ''C'' ''c'')])) =
     [\<lparr>inbox = [Work None (js ''A'') (js ''a''), Work None (js ''C'') (js ''c'')],
       online = True, wlog = []\<rparr>,
      \<lparr>inbox = [Work None (js ''B'') (js ''b'')], online = True, wlog = []\<rparr>] \<and>
   nSentToWorkers (exec plainEnv (initial 2)
     (fourPages @ [EndPage (examplePage ''C'' ''c'')])) = 3"
proof -
  have run: "exec plainEnv (initial 2) fourPages =
     \<lparr>nRead = 3, nWritten = 0,
      batch = [\<lparr>key = js ''Foo'', val = RedirectPage None (js ''foo'') (js ''Bar baz'') None\<rparr>],
      inflight = [], db = Map.empty,
      workers = [\<lparr>inbox = [Work None (js ''A'') (js ''a'')], online = True, wlog = []\<rparr>,
                 \<lparr>inbox = [Work None (js ''B'') (js ''b'')], online = True, wlog = []\<rparr>],
      nSentToWorkers = 2, paused = False, logged = [], exited = None\<rparr>"
    by (simp add: fourPages_def exec_def string_defs regex_defs handler_defs
          numeral_2_eq_2)
  have live: "exited (exec plainEnv (initial 2)
      (fourPages @ [EndPage (examplePage ''C'' ''c'')])) = None"
    by (simp add: exec_snoc run) (simp add: string_defs regex_defs handler_defs)
  have count: "length (filter (dispatches plainEnv) fourPages) = 2"
    by (simp add: fourPages_def string_defs regex_defs plainEnv_def examplePage_def
          orEmpty_def)
  have page: "\<not> namespaceTest plainEnv (trim (js ''C''))"
    "redirectMatch (orEmpty (Some (js ''c''))) = None"
    by (simp_all add: string_defs regex_defs plainEnv_def orEmpty_def)
  show ?thesis
    using round_robin [of 2 plainEnv fourPages "examplePage ''C'' ''c''"
        "js ''C''" "Some (js ''c'')", OF _ live] page
    by (simp add: count run examplePage_def string_defs orEmpty_def)
qed

section \<open>Namespaces\<close>

lemma codePoints_Cons: "h < 55296 \<Longrightarrow> codePoints (h # r) = h # codePoints r"
  by (cases r) simp_all

lemma codePoints_categoryEn: "codePoints (categoryEn @ r) = categoryEn @ codePoints r"
  by (simp add: categoryEn_def js_def codePoints_Cons)

lemma codePoints_categoryRu: "codePoints (categoryRu @ r) = categoryRu @ codePoints r"
  by (simp add: categoryRu_def codePoints_Cons)

lemma matchesLiteral_self: "matchesLiteral E ps (ps @ cs)"
  by (induction ps) (simp_all add: matchesChar_def)

lemma lookahead_blocks: "lookahead E (codePoints t) \<Longrightarrow> \<not> namespaceTest E t"
  by (simp add: namespaceTest_def)

lemma category_allowed:
  "\<not> namespaceTest E (categoryEn @ r)" "\<not> namespaceTest E (categoryRu @ r)"
  by (simp_all add: lookahead_blocks lookahead_def codePoints_categoryEn codePoints_categoryRu
        matchesLiteral_self)

lemma matchesLiteral_fold:
  "sameFold E cs ds \<Longrightarrow> matchesLiteral E ps cs = matchesLiteral E ps ds"
  unfolding sameFold_def
proof (induction ps arbitrary: cs ds)
  case Nil
  then show ?case by simp
next
  case (Cons p ps)
  then show ?case
    by (cases cs; cases ds) (auto simp: matchesChar_def)
qed

lemma colonWord_fold:
  "sameFold E cs ds \<Longrightarrow> colonWord E cs = colonWord E ds"
proof (cases cs)
  case Nil
  assume "sameFold E cs ds"
  with Nil show ?thesis by (simp add: sameFold_def)
next
  case (Cons a cs')
  assume "sameFold E cs ds"
  with Cons obtain d ds' where ds: "ds = d # ds'" and hd: "canonicalize E a = canonicalize E d"
    and tl: "list_all2 (\<lambda>c d. canonicalize E c = canonicalize E d) cs' ds'"
    by (auto simp: sameFold_def list_all2_Cons1)
  show ?thesis
  proof (cases cs')
    case Nil
    with tl Cons ds show ?thesis by simp
  next
    case (Cons b cs'')
    with tl obtain e ds'' where "ds' = e # ds''" "canonicalize E b = canonicalize E e"
      by (auto simp: list_all2_Cons1)
    with Cons \<open>cs = a # cs'\<close> ds hd show ?thesis
      by (simp add: matchesChar_def matchesWord_def)
  qed
qed

lemma lettersColonWord_fold:
  "sameFold E cs ds \<Longrightarrow> lettersColonWord E cs = lettersColonWord E ds"
proof (induction cs arbitrary: ds)
  case Nil
  then show ?case by (simp add: sameFold_def)
next
  case (Cons c cs)
  then obtain d ds' where ds: "ds = d # ds'" and hd: "canonicalize E c = canonicalize E d"
    and tl: "sameFold E cs ds'"
    by (auto simp: sameFold_def list_all2_Cons1)
  from Cons.IH [OF tl] colonWord_fold [OF tl] hd ds show ?case
    by (simp add: matchesLetter_def)
qed

lemma namespaceTest_fold:
  "sameFold E (codePoints t) (codePoints t') \<Longrightarrow> namespaceTest E t = namespaceTest E t'"
  by (simp add: namespaceTest_def lookahead_def Let_def
        matchesLiteral_fold [of E "codePoints t" "codePoints t'"]
        lettersColonWord_fold [of E "codePoints t" "codePoints t'"])

lemma matchesLiteral_foldPrefix: "matchesLiteral E ps cs = foldPrefix E ps cs"
proof (induction ps arbitrary: cs)
  case Nil
  then show ?case by (simp add: foldPrefix_def sameFold_def)
next
  case (Cons p ps)
  then show ?case
    by (cases cs) (auto simp: foldPrefix_def sameFold_def matchesChar_def)
qed

text \<open>
  C7 (as amended). The namespace decision ignores case: two titles whose code points
  have the same canonical forms (the case folding of the \<open>i\<close> flag) get the same
  decision. The Category namespace, under its English or its Russian name, is the one
  exception: a title is dropped exactly when it starts with letters, a colon and a word
  character and does not start, in any letter case, with \<open>Category:\<close> or with the
  Russian name and its colon; so a title that starts with either is kept, whatever
  follows.
\<close>

theorem namespaceTest_ignores_case:
  "(sameFold E (codePoints t) (codePoints t') \<longrightarrow> namespaceTest E t = namespaceTest E t') \<and>
   namespaceTest E t =
     (lettersColonWord E (codePoints t) \<and>
      \<not> foldPrefix E (js ''Category:'') (codePoints t) \<and>
      \<not> foldPrefix E categoryRu (codePoints t)) \<and>
   \<not> namespaceTest E (js ''Category:'' @ r) \<and>
   \<not> namespaceTest E (categoryRu @ r)"
proof (intro conjI impI)
  assume "sameFold E (codePoints t) (codePoints t')"
  then show "namespaceTest E t = namespaceTest E t'"
    by (rule namespaceTest_fold)
next
  show "namespaceTest E t =
     (lettersColonWord E (codePoints t) \<and>
      \<not> foldPrefix E (js ''Category:'') (codePoints t) \<and>
      \<not> foldPrefix E categoryRu (codePoints t))"
    by (auto simp: namespaceTest_def lookahead_def Let_def categoryEn_def
          matchesLiteral_foldPrefix)
next
  show "\<not> namespaceTest E (js ''Category:'' @ r)"
    using category_allowed(1) [of E r] by (simp add: categoryEn_def)
next
  show "\<not> namespaceTest E (categoryRu @ r)"
    by (rule category_allowed(2))
qed

theorem namespaceTest_ignores_case_witness:
  "sameFold plainEnv (codePoints (js ''template:X'')) (codePoints (js ''TEMPLATE:x'')) \<and>
   namespaceTest plainEnv (js ''template:X'') \<and>
   namespaceTest plainEnv (js ''TEMPLATE:x'') \<and>
   lettersColonWord plainEnv (codePoints (js ''template:X'')) \<and>
   \<not> foldPrefix plainEnv (js ''Category:'') (codePoints (js ''template:X'')) \<and>
   \<not> foldPrefix plainEnv categoryRu (codePoints (js ''template:X'')) \<and>
   \<not> namespaceTest plainEnv (js ''Category:X'') \<and>
   \<not> namespaceTest plainEnv (categoryRu @ js ''X'') \<and>
   namespaceTest plainEnv (js ''Help:X'') \<and>
   namespaceTest plainEnv (js ''File:X.png'') \<and>
   namespaceTest plainEnv (js ''Template:X'') \<and>
   namespaceTest plainEnv (js ''Categories:X'') \<and>
   \<not> namespaceTest plainEnv (js ''Test'') \<and>
   \<not> namespaceTest plainEnv (js ''Alien: Covenant'')"
proof -
  have same: "sameFold plainEnv (codePoints (js ''template:X'')) (codePoints (js ''TEMPLATE:x''))"
    by (simp add: sameFold_def string_defs regex_defs plainEnv_def)
  have dropped: "namespaceTest plainEnv (js ''template:X'')"
    by (simp add: string_defs regex_defs plainEnv_def)
  have others: "namespaceTest plainEnv (js ''Help:X'')"
    "namespaceTest plainEnv (js ''File:X.png'')"
    "namespaceTest plainEnv (js ''Template:X'')"
    "namespaceTest plainEnv (js ''Categories:X'')"
    "\<not> namespaceTest plainEnv (js ''Test'')"
    "\<not> namespaceTest plainEnv (js ''Alien: Covenant'')"
    by (simp_all add: string_defs regex_defs plainEnv_def)
  have kept: "js ''Category:'' @ js ''X'' = js ''Category:X''"
    by (simp add: js_def)
  show ?thesis
    using namespaceTest_ignores_case [of plainEnv "js ''template:X''" "js ''TEMPLATE:x''" "js ''X''"]
      same dropped others
    by (simp add: kept)
qed

text \<open>
  The claim as stated (C7) fails: read case-sensitively the title \<open>category:X\<close> is
  dropped, and the code keeps it, as it keeps \<open>CATEGORY:X\<close>; \<open>template:X\<close> is
  dropped like \<open>Template:X\<close>.
\<close>

theorem namespaceTest_case_counterexample:
  "namespaceTestCaseSensitive plainEnv (js ''category:X'') \<and>
   \<not> namespaceTest plainEnv (js ''category:X'') \<and>
   \<not> namespaceTest plainEnv (js ''CATEGORY:X'') \<and>
   namespaceTest plainEnv (js ''Template:X'') \<and>
   namespaceTest plainEnv (js ''template:X'')"
  by (simp add: namespaceTestCaseSensitive_def string_defs regex_defs plainEnv_def)

section \<open>Keys of the database\<close>

lemma keysFrom_mono: "keysFrom E A s \<Longrightarrow> A \<subseteq> B \<Longrightarrow> keysFrom E B s"
  unfolding keysFrom_def by blast

lemma keysFrom_write_kv:
  "keysFrom E A s \<Longrightarrow> key e \<in> capitalizeFirst E ` A \<Longrightarrow> keysFrom E A (write_kv e s)"
  by (simp add: keysFrom_def buffered_write_kv write_kv_fields)

lemma keysFrom_fatal: "keysFrom E A (fatal l s) = keysFrom E A s"
  by (simp add: keysFrom_def buffered_def fatal_fields)

lemma keysFrom_countRead: "keysFrom E A (countRead s) = keysFrom E A s"
  unfolding keysFrom_def by (simp only: buffered_countRead countRead_fields)

lemma keysFrom_worker_update:
  assumes "keysFrom E A s" and "w < length (workers s)"
    and "\<And>i t x. Work i t x \<in> set (inbox wk) \<Longrightarrow> t \<in> A"
  shows "keysFrom E A (s\<lparr>workers := (workers s)[w := wk]\<rparr>)"
proof -
  have "set ((workers s)[w := wk]) \<subseteq> insert wk (set (workers s))"
    by (rule set_update_subset_insert)
  with assms show ?thesis
    unfolding keysFrom_def buffered_def by (simp add: subset_iff) blast
qed

lemma keysFrom_inbox:
  "keysFrom E A s \<Longrightarrow> w < length (workers s) \<Longrightarrow> Work i t x \<in> set (inbox (workers s ! w)) \<Longrightarrow>
   t \<in> A"
  unfolding keysFrom_def by (meson nth_mem)

lemma keysFrom_sendToWorker:
  assumes "keysFrom E A s" and "sendToWorker (Work i t x) s = Some s'" and "t \<in> A"
  shows "keysFrom E A s'"
proof -
  from assms(2) have ne: "workers s \<noteq> []"
    by (auto simp: sendToWorker_def split: if_splits)
  let ?w = "nSentToWorkers s mod length (workers s)"
  from ne have lt: "?w < length (workers s)" by simp
  let ?wk = "(workers s ! ?w)\<lparr>inbox := inbox (workers s ! ?w) @ [Work i t x]\<rparr>"
  have "keysFrom E A (s\<lparr>workers := (workers s)[?w := ?wk]\<rparr>)"
    using assms(1) lt
  proof (rule keysFrom_worker_update)
    fix i' t' x'
    assume "Work i' t' x' \<in> set (inbox ?wk)"
    with assms(3) keysFrom_inbox [OF assms(1) lt] show "t' \<in> A" by auto
  qed
  moreover from assms(2) ne have "s' = s\<lparr>workers := (workers s)[?w := ?wk],
      nSentToWorkers := Suc (nSentToWorkers s)\<rparr>"
    by (simp add: sendToWorker_def Let_def)
  ultimately show ?thesis by (simp add: keysFrom_def buffered_def)
qed

lemma onEndPage_keysFrom:
  assumes "keysFrom E A s"
  shows "keysFrom E (A \<union> acceptedTitle E (EndPage p)) (onEndPage E p s)"
proof -
  have wider: "keysFrom E (A \<union> acceptedTitle E (EndPage p)) s"
    using assms by (rule keysFrom_mono) simp
  show ?thesis
  proof (cases "page_title p")
    case None
    with wider show ?thesis by (simp add: onEndPage_def keysFrom_fatal)
  next
    case title: (Some t)
    show ?thesis
    proof (cases "page_text p")
      case None
      with title wider show ?thesis by (simp add: onEndPage_def Let_def keysFrom_fatal)
    next
      case body: (Some x)
      show ?thesis
      proof (cases "namespaceTest E (trim t)")
        case True
        with title body wider show ?thesis by (simp add: onEndPage_def Let_def)
      next
        case False
        with title have here: "trim t \<in> A \<union> acceptedTitle E (EndPage p)" by simp
        show ?thesis
        proof (cases "redirectMatch (orEmpty x)")
          case (Some target)
          with title body False have "onEndPage E p s =
              countRead (write_kv
                \<lparr>key = capitalizeFirst E (trim t),
                 val = RedirectPage (page_id p) (trim t) (capitalizeFirst E target)
                         (if kWithSource E then Some (orEmpty x) else None)\<rparr> s)"
            by (simp add: onEndPage_def Let_def)
          with wider here show ?thesis
            by (simp add: keysFrom_countRead keysFrom_write_kv del: acceptedTitle.simps)
        next
          case None
          show ?thesis
          proof (cases "sendToWorker (Work (page_id p) (trim t) (orEmpty x)) s")
            case None
            with title body False \<open>redirectMatch (orEmpty x) = None\<close> wider show ?thesis
              by (simp add: onEndPage_def Let_def keysFrom_fatal)
          next
            case (Some s')
            from keysFrom_sendToWorker [OF wider Some here]
            have "keysFrom E (A \<union> acceptedTitle E (EndPage p)) (countRead s')"
              by (simp add: keysFrom_countRead)
            with title body False \<open>redirectMatch (orEmpty x) = None\<close> Some show ?thesis
              by (simp add: onEndPage_def Let_def)
          qed
        qed
      qed
    qed
  qed
qed

lemma onWorkerTurn_keysFrom:
  assumes "keysFrom E A s"
  shows "keysFrom E A (onWorkerTurn E w r b ms s)"
proof (cases "w < length (workers s) \<and> online (workers s ! w)")
  case False
  with assms show ?thesis by (auto simp: onWorkerTurn_def)
next
  case True
  then have lt: "w < length (workers s)" by simp
  show ?thesis
  proof (cases "inbox (workers s ! w)")
    case Nil
    with True assms show ?thesis by (simp add: onWorkerTurn_def)
  next
    case (Cons m rest)
    have upd: "keysFrom E A (s\<lparr>workers := (workers s)[w := wk]\<rparr>)" if "inbox wk = rest" for wk
      using assms lt
    proof (rule keysFrom_worker_update)
      fix i t x
      assume "Work i t x \<in> set (inbox wk)"
      with that Cons keysFrom_inbox [OF assms lt, of i t x] show "t \<in> A" by simp
    qed
    show ?thesis
    proof (cases m)
      case Disconnect
      with True Cons upd [of "(workers s ! w)\<lparr>inbox := rest, online := False\<rparr>"] show ?thesis
        by (simp add: onWorkerTurn_def)
    next
      case (Work i t x)
      with Cons keysFrom_inbox [OF assms lt, of i t x] have "t \<in> A" by simp
      then have k: "key (reply E i t x a b ms) \<in> capitalizeFirst E ` A" for a
        by (simp add: reply_def)
      show ?thesis
      proof (cases r)
        case (Ast a)
        with Work True Cons
          keysFrom_write_kv [OF upd [of "(workers s ! w)\<lparr>inbox := rest\<rparr>"] k [of a]]
        show ?thesis by (simp add: onWorkerTurn_def Let_def)
      next
        case (ParseError e)
        with Work True Cons
          keysFrom_write_kv [OF upd [of "(workers s ! w)\<lparr>inbox := rest,
              wlog := wlog (workers s ! w) @ [(t, e)]\<rparr>"] k [of "[]"]]
        show ?thesis by (simp add: onWorkerTurn_def Let_def)
      next
        case Throws
        with Work True Cons upd [of "(workers s ! w)\<lparr>inbox := rest, online := False\<rparr>"]
        show ?thesis by (simp add: onWorkerTurn_def Let_def)
      qed
    qed
  qed
qed

lemma dom_applyBatch: "dom (applyBatch b m) = dom m \<union> key ` set b"
  unfolding applyBatch_def by (induction b arbitrary: m) auto

lemma batchCallback_buffered:
  "set (buffered (batchCallback i err s)) \<subseteq> set (buffered s)"
proof (cases "i < length (inflight s)")
  case False
  then show ?thesis by (simp add: batchCallback_def)
next
  case True
  have "set (concat (take i (inflight s) @ drop (Suc i) (inflight s))) \<subseteq>
      set (concat (inflight s))"
    by (auto dest: in_set_takeD in_set_dropD)
  with True show ?thesis
    by (cases err) (auto simp: batchCallback_def Let_def buffered_def fatal_def)
qed

lemma batchCallback_dom:
  "dom (db (batchCallback i err s)) \<subseteq> dom (db s) \<union> key ` set (buffered s)"
proof (cases "i < length (inflight s)")
  case False
  then show ?thesis by (simp add: batchCallback_def)
next
  case True
  then have "inflight s ! i \<in> set (inflight s)" by simp
  then have "set (inflight s ! i) \<subseteq> set (buffered s)"
    by (auto simp: buffered_def)
  then have "key ` set (inflight s ! i) \<subseteq> key ` set (buffered s)"
    by (rule image_mono)
  with True show ?thesis
    by (cases err) (auto simp: batchCallback_def Let_def fatal_def dom_applyBatch)
qed

lemma batchCallback_workers: "workers (batchCallback i err s) = workers s"
  by (cases err) (simp_all add: batchCallback_def Let_def fatal_def)

lemma batchCallback_keysFrom:
  assumes "keysFrom E A s"
  shows "keysFrom E A (batchCallback i err s)"
proof -
  from assms have "key ` set (buffered s) \<subseteq> capitalizeFirst E ` A"
    and "dom (db s) \<subseteq> capitalizeFirst E ` A"
    by (simp_all add: keysFrom_def)
  with batchCallback_buffered [of i err s] batchCallback_dom [of i err s]
  have "key ` set (buffered (batchCallback i err s)) \<subseteq> capitalizeFirst E ` A"
    and "dom (db (batchCallback i err s)) \<subseteq> capitalizeFirst E ` A"
    by blast+
  with assms show ?thesis
    by (simp add: keysFrom_def batchCallback_workers)
qed

lemma step_keysFrom:
  assumes "keysFrom E A s"
  shows "keysFrom E (A \<union> acceptedTitle E ev) (step E s ev)"
proof (cases "exited s = None")
  case False
  with keysFrom_mono [OF assms, of "A \<union> acceptedTitle E ev"] show ?thesis
    by (simp add: step_def)
next
  case True
  have wider: "keysFrom E (A \<union> acceptedTitle E ev) s"
    using assms by (rule keysFrom_mono) simp
  show ?thesis
  proof (cases ev)
    case (EndPage p)
    with True onEndPage_keysFrom [OF assms, of p] show ?thesis by (simp add: step_def)
  next
    case (WorkerTurn w r b ms)
    with True onWorkerTurn_keysFrom [OF wider] show ?thesis by (simp add: step_def)
  next
    case (BatchCallback i err)
    with True batchCallback_keysFrom [OF wider] show ?thesis by (simp add: step_def)
  next
    case StreamClose
    with True wider show ?thesis
      by (auto simp: step_def onClose_def keysFrom_def buffered_def)
  next
    case (XmlError m)
    with True wider show ?thesis
      by (simp add: step_def onXmlError_def keysFrom_def buffered_def)
  next
    case (Death w)
    with True wider show ?thesis
      by (simp add: step_def onDeath_def keysFrom_fatal)
  qed
qed

lemma exec_keysFrom:
  "keysFrom E A s \<Longrightarrow> keysFrom E (A \<union> (\<Union>ev \<in> set evs. acceptedTitle E ev)) (exec E s evs)"
proof (induction evs arbitrary: A s)
  case Nil
  then show ?case by (simp add: exec_Nil)
next
  case (Cons ev evs)
  from Cons.IH [OF step_keysFrom [OF Cons.prems, of ev]] show ?case
    by (simp add: exec_Cons Un_assoc)
qed

lemma keysFrom_initial: "keysFrom E {} (initial n)"
  by (simp add: keysFrom_def buffered_def initial_def)

lemma db_keys_accepted:
  "dom (db (exec E (initial n) evs)) \<subseteq> capitalizeFirst E ` (\<Union>ev \<in> set evs. acceptedTitle E ev)"
  using exec_keysFrom [OF keysFrom_initial, of E evs n] by (simp add: keysFrom_def)

section \<open>Dropped and accepted pages\<close>

lemma onEndPage_dropped:
  "page_title p = Some t \<Longrightarrow> page_text p = Some x \<Longrightarrow> namespaceTest E (trim t) \<Longrightarrow>
   onEndPage E p s = s"
  by (simp add: onEndPage_def Let_def)

lemma step_dropped:
  "page_title p = Some t \<Longrightarrow> page_text p = Some x \<Longrightarrow> namespaceTest E (trim t) \<Longrightarrow>
   step E s (EndPage p) = s"
  by (simp add: step_def onEndPage_dropped)

lemma onEndPage_redirect:
  "page_title p = Some t \<Longrightarrow> page_text p = Some x \<Longrightarrow> \<not> namespaceTest E (trim t) \<Longrightarrow>
   redirectMatch (orEmpty x) = Some target \<Longrightarrow>
   onEndPage E p s =
     countRead (write_kv
       \<lparr>key = capitalizeFirst E (trim t),
        val = RedirectPage (page_id p) (trim t) (capitalizeFirst E target)
                (if kWithSource E then Some (orEmpty x) else None)\<rparr> s)"
  by (simp add: onEndPage_def Let_def)

lemma onEndPage_accepted:
  assumes "page_title p = Some t" and "page_text p = Some x"
    and "\<not> namespaceTest E (trim t)" and "workers s \<noteq> []"
  shows "nRead (onEndPage E p s) = nRead s + 1 \<and> accounted (onEndPage E p s) = accounted s + 1"
proof (cases "redirectMatch (orEmpty x)")
  case (Some target)
  with assms show ?thesis
    by (simp add: onEndPage_redirect countRead_fields write_kv_fields accounted_countRead
          accounted_write_kv)
next
  case None
  from assms(4) obtain s' where sent: "sendToWorker (Work (page_id p) (trim t) (orEmpty x)) s = Some s'"
    by (auto simp: sendToWorker_def Let_def)
  with assms None have "onEndPage E p s = countRead s'"
    by (simp add: onEndPage_def Let_def)
  with accounted_sendToWorker [OF sent] show ?thesis
    by (simp add: countRead_fields accounted_countRead)
qed

text \<open>
  C2 (as amended). A page whose title matches the namespace pattern (letters, a colon
  and a word character, and not one of the two allowed prefixes) leaves the whole state
  as it was: it is not counted, not sent to a worker and not put into a batch; and at
  every instant of every run each key of the database is the canonical title of a page
  of the input that passed the namespace test. A page whose title starts with
  \<open>Category:\<close> does pass: with a worker to send to, it is counted in \<open>nRead\<close> and
  is in flight like any other page.
\<close>

theorem excluded_namespace_dropped:
  "(page_title p = Some t \<and> page_text p = Some x \<and> namespaceTest E (trim t) \<longrightarrow>
      step E s (EndPage p) = s \<and> acceptedTitle E (EndPage p) = {}) \<and>
   dom (db (exec E (initial n) evs)) \<subseteq>
     capitalizeFirst E ` (\<Union>ev \<in> set evs. acceptedTitle E ev) \<and>
   \<not> namespaceTest E (js ''Category:'' @ r) \<and>
   (page_title q = Some u \<and> page_text q = Some y \<and> trim u = js ''Category:'' @ r \<and>
    exited s = None \<and> workers s \<noteq> [] \<longrightarrow>
      nRead (step E s (EndPage q)) = nRead s + 1 \<and>
      accounted (step E s (EndPage q)) = accounted s + 1)"
proof (intro conjI impI)
  assume "page_title p = Some t \<and> page_text p = Some x \<and> namespaceTest E (trim t)"
  then show "step E s (EndPage p) = s" and "acceptedTitle E (EndPage p) = {}"
    by (simp_all add: step_dropped)
next
  show "dom (db (exec E (initial n) evs)) \<subseteq>
      capitalizeFirst E ` (\<Union>ev \<in> set evs. acceptedTitle E ev)"
    by (rule db_keys_accepted)
next
  show allowed: "\<not> namespaceTest E (js ''Category:'' @ r)"
    using category_allowed(1) [of E r] by (simp add: categoryEn_def)
  assume a: "page_title q = Some u \<and> page_text q = Some y \<and> trim u = js ''Category:'' @ r \<and>
    exited s = None \<and> workers s \<noteq> []"
  with allowed have "nRead (onEndPage E q s) = nRead s + 1 \<and>
      accounted (onEndPage E q s) = accounted s + 1"
    by (intro onEndPage_accepted [of q u y]) simp_all
  with a show "nRead (step E s (EndPage q)) = nRead s + 1"
    and "accounted (step E s (EndPage q)) = accounted s + 1"
    by (simp_all add: step_def)
qed

theorem excluded_namespace_dropped_witness:
  "namespaceTest plainEnv (trim (js ''Template:X'')) \<and>
   step plainEnv (initial (Suc 0)) (EndPage (examplePage ''Template:X'' ''anything'')) =
     initial (Suc 0) \<and>
   dom (db (exec plainEnv (initial (Suc 0))
     (replicate 100 (EndPage (examplePage ''Template:X'' ''anything''))))) = {} \<and>
   \<not> namespaceTest plainEnv (js ''Category:X'') \<and>
   nRead (step plainEnv (initial (Suc 0)) (EndPage (examplePage ''Category:X'' ''anything''))) = 1 \<and>
   accounted (step plainEnv (initial (Suc 0)) (EndPage (examplePage ''Category:X'' ''anything''))) = 1"
proof -
  have dropped: "namespaceTest plainEnv (trim (js ''Template:X''))"
    by (simp add: string_defs regex_defs plainEnv_def)
  have kept: "trim (js ''Category:X'') = js ''Category:'' @ js ''X''"
    by (simp add: string_defs)
  have start: "exited (initial (Suc 0)) = None" "workers (initial (Suc 0)) \<noteq> []"
    "nRead (initial (Suc 0)) = 0" "accounted (initial (Suc 0)) = 0"
    by (simp_all add: initial_def accounted_def buffered_def queued_def)
  have none: "(\<Union>ev \<in> set (replicate 100 (EndPage (examplePage ''Template:X'' ''anything''))).
      acceptedTitle plainEnv ev) = {}"
    using dropped by (simp add: examplePage_def)
  show ?thesis
    using excluded_namespace_dropped [of "examplePage ''Template:X'' ''anything''"
        "js ''Template:X''" "Some (js ''anything'')" plainEnv "initial (Suc 0)" "Suc 0"
        "replicate 100 (EndPage (examplePage ''Template:X'' ''anything''))" "js ''X''"
        "examplePage ''Category:X'' ''anything''" "js ''Category:X''" "Some (js ''anything'')"]
      dropped kept start none
    by (simp add: examplePage_def js_def)
qed

lemma plain_Category:
  "trim (js ''Category:X'') = js ''Category:X''" "\<not> namespaceTest plainEnv (js ''Category:X'')"
  by (simp_all add: string_defs regex_defs plainEnv_def)

text \<open>
  The claim as stated (C2) fails for its own example: the page \<open>Category:X\<close> is sent
  to the worker, and after a hundred such pages, the hundred replies of the worker and
  the callback of the batch, the database holds the key \<open>Category:X\<close>.
\<close>

theorem category_page_counterexample:
  "workers (step plainEnv (initial (Suc 0)) (EndPage (examplePage ''Category:X'' ''anything''))) =
     [\<lparr>inbox = [Work None (js ''Category:X'') (js ''anything'')], online = True, wlog = []\<rparr>] \<and>
   db (exec plainEnv (initial (Suc 0))
         (pagesThenTurns ''Category:X'' 100 100 @ [BatchCallback 0 None]))
      (js ''Category:X'') = Some (ParsedPage None (js ''Category:X'') [] 0 0 None)"
proof -
  have "workers (step plainEnv (initial (Suc 0)) (EndPage (examplePage ''Category:X'' ''anything''))) =
     [\<lparr>inbox = [Work None (js ''Category:X'') (js ''anything'')], online = True, wlog = []\<rparr>]"
    by (simp add: string_defs regex_defs handler_defs)
  moreover have "exec plainEnv (initial (Suc 0))
         (pagesThenTurns ''Category:X'' 100 100 @ [BatchCallback 0 None]) = flushed ''Category:X'' 100"
    by (simp add: exec_snoc exec_pagesThenTurns [OF plain_Category] step_callback)
  moreover have "db (flushed ''Category:X'' 100) (js ''Category:X'') =
      Some (ParsedPage None (js ''Category:X'') [] 0 0 None)"
    by (simp add: flushed_def string_defs plainEnv_def)
  ultimately show ?thesis by simp
qed

section \<open>Redirects\<close>

lemma buffered_workers_update: "buffered (s\<lparr>workers := ws\<rparr>) = buffered s"
  by (simp add: buffered_def)

text \<open>
  For every page whose title passes the namespace test and whose text matches the
  redirect pattern, the handler hands the redirect straight to the batcher: the buffered
  entries grow by exactly the entry with key \<open>capitalizeFirst title\<close> and
  \<open>redirectTo = capitalizeFirst target\<close>, the page is counted, and no worker receives
  anything.
\<close>

lemma redirect_batched_directly:
  assumes "exited s = None" and "page_title p = Some t" and "page_text p = Some x"
    and "\<not> namespaceTest E (trim t)" and "redirectMatch (orEmpty x) = Some target"
  shows "buffered (step E s (EndPage p)) =
           buffered s @
             [\<lparr>key = capitalizeFirst E (trim t),
               val = RedirectPage (page_id p) (trim t) (capitalizeFirst E target)
                       (if kWithSource E then Some (orEmpty x) else None)\<rparr>] \<and>
         workers (step E s (EndPage p)) = workers s \<and>
         nSentToWorkers (step E s (EndPage p)) = nSentToWorkers s \<and>
         nRead (step E s (EndPage p)) = nRead s + 1"
  using assms
  by (simp add: step_def onEndPage_redirect buffered_countRead buffered_write_kv countRead_fields
        write_kv_fields)

text \<open>
  C3. The run of the claim's example: one worker, the single page \<open>foo\<close> with the text
  \<open>#REDIRECT [[Bar baz]]\<close>, then the close of the stream and the worker's turn on
  \<open>disconnect\<close>. The pattern captures \<open>Bar baz\<close>, in any letter case of the
  keyword and only at the start of the text; the handler of the page sends nothing to
  the worker and puts the entry with key \<open>Foo\<close> and \<open>redirectTo = Bar baz\<close>
  into \<open>batch\<close>. But \<open>batch\<close>, shorter than \<open>kBatchSize\<close>, is never handed
  to the database: at the end of the run the entry is still in \<open>batch\<close>, no batch
  is in flight, and the database has no key \<open>Foo\<close>.
\<close>

theorem redirect_not_persisted:
  "redirectMatch (js ''#REDIRECT [[Bar baz]]'') = Some (js ''Bar baz'') \<and>
   redirectMatch (js ''#redirect [[Bar baz]]'') = Some (js ''Bar baz'') \<and>
   redirectMatch (js ''#Redirect: [[Bar baz]]'') = Some (js ''Bar baz'') \<and>
   redirectMatch (js ''see #REDIRECT [[Bar baz]]'') = None \<and>
   workers (step plainEnv (initial (Suc 0)) (EndPage (examplePage ''foo'' ''#REDIRECT [[Bar baz]]''))) =
     [\<lparr>inbox = [], online = True, wlog = []\<rparr>] \<and>
   exec plainEnv (initial (Suc 0)) redirectRun =
     \<lparr>nRead = 1, nWritten = 0,
      batch = [\<lparr>key = js ''Foo'', val = RedirectPage None (js ''foo'') (js ''Bar baz'') None\<rparr>],
      inflight = [], db = Map.empty,
      workers = [\<lparr>inbox = [], online = False, wlog = []\<rparr>],
      nSentToWorkers = 0, paused = False, logged = [ShuttingDown], exited = None\<rparr> \<and>
   db (exec plainEnv (initial (Suc 0)) redirectRun) (js ''Foo'') = None"
  by (simp add: exec_def redirectRun_def string_defs regex_defs handler_defs)

section \<open>Parser failures\<close>

lemma onWorkerTurn_work:
  assumes "w < length (workers s)" and "online (workers s ! w)"
    and "inbox (workers s ! w) = Work i title source # rest"
  shows "onWorkerTurn E w (ParseError e) b ms s =
           write_kv (reply E i title source [] b ms)
             (s\<lparr>workers := (workers s)[w := (workers s ! w)\<lparr>inbox := rest,
                   wlog := wlog (workers s ! w) @ [(title, e)]\<rparr>]\<rparr>)"
    and "onWorkerTurn E w (Ast a) b ms s =
           write_kv (reply E i title source a b ms)
             (s\<lparr>workers := (workers s)[w := (workers s ! w)\<lparr>inbox := rest\<rparr>]\<rparr>)"
  using assms by (simp_all add: onWorkerTurn_def Let_def)

text \<open>
  C5. When the parser returns an error value for a record, the worker writes the title
  and the error to its console, replies with the empty tree in place of the result (the
  reply reaches the batcher), stays connected with the rest of its inbox, and the run
  does not exit. The next request in its inbox is then served as usual.
\<close>

theorem parse_error_recovered:
  assumes "exited s = None" and "w < length (workers s)" and "online (workers s ! w)"
    and "inbox (workers s ! w) = Work i title source # rest"
  shows "wlog (workers (step E s (WorkerTurn w (ParseError e) b ms)) ! w) =
           wlog (workers s ! w) @ [(title, e)] \<and>
         buffered (step E s (WorkerTurn w (ParseError e) b ms)) =
           buffered s @
             [\<lparr>key = capitalizeFirst E title,
               val = ParsedPage i title [] (of_int ms / 1000) b
                       (if kWithSource E then Some source else None)\<rparr>] \<and>
         online (workers (step E s (WorkerTurn w (ParseError e) b ms)) ! w) \<and>
         inbox (workers (step E s (WorkerTurn w (ParseError e) b ms)) ! w) = rest \<and>
         exited (step E s (WorkerTurn w (ParseError e) b ms)) = None \<and>
         (\<forall>i' title' source' rest' a b' ms'.
            rest = Work i' title' source' # rest' \<longrightarrow>
            buffered (step E (step E s (WorkerTurn w (ParseError e) b ms))
                        (WorkerTurn w (Ast a) b' ms')) =
              buffered (step E s (WorkerTurn w (ParseError e) b ms)) @
                [\<lparr>key = capitalizeFirst E title',
                  val = ParsedPage i' title' a (of_int ms' / 1000) b'
                          (if kWithSource E then Some source' else None)\<rparr>])"
proof -
  let ?s' = "step E s (WorkerTurn w (ParseError e) b ms)"
  have s': "?s' = write_kv (reply E i title source [] b ms)
             (s\<lparr>workers := (workers s)[w := (workers s ! w)\<lparr>inbox := rest,
                   wlog := wlog (workers s ! w) @ [(title, e)]\<rparr>]\<rparr>)"
    using assms by (simp add: step_def onWorkerTurn_work)
  have first: "wlog (workers ?s' ! w) = wlog (workers s ! w) @ [(title, e)]"
    "buffered ?s' = buffered s @ [reply E i title source [] b ms]"
    "online (workers ?s' ! w)" "inbox (workers ?s' ! w) = rest" "exited ?s' = None"
    "w < length (workers ?s')"
    using assms by (simp_all add: s' write_kv_fields buffered_write_kv buffered_workers_update)
  have "buffered (step E ?s' (WorkerTurn w (Ast a) b' ms')) =
        buffered ?s' @ [reply E i' title' source' a b' ms']"
    if "rest = Work i' title' source' # rest'" for i' title' source' rest' a b' ms'
  proof -
    from that first have "onWorkerTurn E w (Ast a) b' ms' ?s' =
        write_kv (reply E i' title' source' a b' ms')
          (?s'\<lparr>workers := (workers ?s')[w := (workers ?s' ! w)\<lparr>inbox := rest'\<rparr>]\<rparr>)"
      by (intro onWorkerTurn_work) simp_all
    with first show ?thesis
      by (simp add: step_def buffered_write_kv buffered_workers_update)
  qed
  with first show ?thesis
    by (simp add: reply_def)
qed

theorem parse_error_recovered_witness:
  "inbox (workers (exec plainEnv (initial (Suc 0)) brokenThenNext) ! 0) =
     [Work None (js ''Broken'') (js ''{{{''), Work None (js ''Next'') (js ''ok'')] \<and>
   wlog (workers (exec plainEnv (initial (Suc 0))
       (brokenThenNext @ [WorkerTurn 0 (ParseError (js ''bad'')) 7 12])) ! 0) =
     [(js ''Broken'', js ''bad'')] \<and>
   buffered (exec plainEnv (initial (Suc 0))
       (brokenThenNext @ [WorkerTurn 0 (ParseError (js ''bad'')) 7 12])) =
     [\<lparr>key = js ''Broken'', val = ParsedPage None (js ''Broken'') [] (12 / 1000) 7 None\<rparr>] \<and>
   online (workers (exec plainEnv (initial (Suc 0))
       (brokenThenNext @ [WorkerTurn 0 (ParseError (js ''bad'')) 7 12])) ! 0) \<and>
   exited (exec plainEnv (initial (Suc 0))
       (brokenThenNext @ [WorkerTurn 0 (ParseError (js ''bad'')) 7 12])) = None \<and>
   buffered (exec plainEnv (initial (Suc 0))
       (brokenThenNext @ [WorkerTurn 0 (ParseError (js ''bad'')) 7 12,
                          WorkerTurn 0 (Ast [Text (js ''ok'')]) 0 3])) =
     [\<lparr>key = js ''Broken'', val = ParsedPage None (js ''Broken'') [] (12 / 1000) 7 None\<rparr>,
      \<lparr>key = js ''Next'', val = ParsedPage None (js ''Next'') [Text (js ''ok'')] (3 / 1000) 0 None\<rparr>]"
proof -
  let ?s = "exec plainEnv (initial (Suc 0)) brokenThenNext"
  have run: "?s =
     \<lparr>nRead = 2, nWritten = 0, batch = [], inflight = [], db = Map.empty,
      workers = [\<lparr>inbox = [Work None (js ''Broken'') (js ''{{{''), Work None (js ''Next'') (js ''ok'')],
                  online = True, wlog = []\<rparr>],
      nSentToWorkers = 2, paused = False, logged = [], exited = None\<rparr>"
    by (simp add: brokenThenNext_def exec_def string_defs regex_defs handler_defs)
  have pre: "exited ?s = None" "0 < length (workers ?s)" "online (workers ?s ! 0)"
    "inbox (workers ?s ! 0) =
       Work None (js ''Broken'') (js ''{{{'') # [Work None (js ''Next'') (js ''ok'')]"
    "buffered ?s = []" "wlog (workers ?s ! 0) = []"
    by (simp_all add: run buffered_def)
  have c: "capitalizeFirst plainEnv (js ''Broken'') = js ''Broken''"
    "capitalizeFirst plainEnv (js ''Next'') = js ''Next''" "\<not> kWithSource plainEnv"
    by (simp_all add: string_defs plainEnv_def)
  have e: "exec plainEnv (initial (Suc 0)) (brokenThenNext @ [x]) = step plainEnv ?s x"
    "exec plainEnv (initial (Suc 0)) (brokenThenNext @ [x, y]) =
       step plainEnv (step plainEnv ?s x) y" for x y
    by (simp_all add: exec_def)
  from parse_error_recovered [OF pre(1-4), of plainEnv "js ''bad''" 7 12]
  show ?thesis
    by (simp add: e pre c)
qed

section \<open>Malformed pages and errors of the XML reader\<close>





text \<open>
  The handler of an error of the XML reader writes the message to the console and does
  nothing else. Unlike the callback of a failed batch, the handler of a worker's death
  and the \<open>catch\<close> of the page handler, it does not end the process.
\<close>

lemma xml_error_only_logged:
  "exited s = None \<Longrightarrow>
   step E s (XmlError m) = s\<lparr>logged := logged s @ [XmlParsingFailed m]\<rparr>"
  by (simp add: step_def onXmlError_def)

lemma other_errors_exit:
  "exited s = None \<Longrightarrow> i < length (inflight s) \<Longrightarrow>
   exited (step E s (BatchCallback i (Some e))) = Some 1"
  "exited s = None \<Longrightarrow> exited (step E s (Death w)) = Some 1"
  by (simp_all add: step_def batchCallback_def onDeath_def fatal_def Let_def)

section \<open>What reaches the database\<close>

lemma fullBatches_write_kv: "fullBatches s \<Longrightarrow> fullBatches (write_kv e s)"
  by (simp add: fullBatches_def write_kv_def Let_def)

lemma fullBatches_fatal: "fullBatches s \<Longrightarrow> fullBatches (fatal l s)"
  by (simp add: fullBatches_def fatal_def)

lemma fullBatches_countRead: "fullBatches s \<Longrightarrow> fullBatches (countRead s)"
  by (simp add: fullBatches_def countRead_def Let_def)

lemma fullBatches_workers_update: "fullBatches (s\<lparr>workers := ws\<rparr>) = fullBatches s"
  by (simp add: fullBatches_def)

lemma fullBatches_sendToWorker: "sendToWorker m s = Some s' \<Longrightarrow> fullBatches s' = fullBatches s"
  by (drule sendToWorker_fields) (simp add: fullBatches_def)

lemma onEndPage_fullBatches: "fullBatches s \<Longrightarrow> fullBatches (onEndPage E p s)"
  by (auto simp: onEndPage_def Let_def fullBatches_fatal fullBatches_write_kv
        fullBatches_countRead fullBatches_sendToWorker split: option.splits)

lemma onWorkerTurn_fullBatches: "fullBatches s \<Longrightarrow> fullBatches (onWorkerTurn E w r b ms s)"
  by (auto simp: onWorkerTurn_def Let_def fullBatches_write_kv fullBatches_workers_update
      split: list.splits wmsg.splits parsed.splits)

lemma batchCallback_fullBatches: "fullBatches s \<Longrightarrow> fullBatches (batchCallback i err s)"
proof (cases "i < length (inflight s)")
  case False
  assume "fullBatches s"
  with False show ?thesis by (simp add: batchCallback_def)
next
  case True
  assume inv: "fullBatches s"
  then have "list_all (\<lambda>b. kBatchSize \<le> int (length b)) (inflight s)"
    by (simp add: fullBatches_def)
  with True have big: "kBatchSize \<le> int (length (inflight s ! i))"
    by (simp add: list_all_length)
  from inv have rest: "list_all (\<lambda>b. kBatchSize \<le> int (length b))
      (take i (inflight s) @ drop (Suc i) (inflight s))"
    unfolding fullBatches_def by (intro list_all_remove_nth) simp
  from inv have "0 \<le> nWritten s" by (simp add: fullBatches_def)
  with True inv rest big show ?thesis
    by (cases err)
      (auto simp: batchCallback_def Let_def fullBatches_def fatal_def kBatchSize_def
         split: if_splits)
qed

lemma step_fullBatches: "fullBatches s \<Longrightarrow> fullBatches (step E s ev)"
proof (cases "exited s = None")
  case False
  assume "fullBatches s"
  with False show ?thesis by (simp add: step_def)
next
  case True
  assume inv: "fullBatches s"
  show ?thesis
  proof (cases ev)
    case (EndPage p)
    with True inv show ?thesis by (simp add: step_def onEndPage_fullBatches)
  next
    case (WorkerTurn w r b ms)
    with True inv show ?thesis by (simp add: step_def onWorkerTurn_fullBatches)
  next
    case (BatchCallback i err)
    with True inv show ?thesis by (simp add: step_def batchCallback_fullBatches)
  next
    case StreamClose
    with True inv show ?thesis by (simp add: step_def onClose_def fullBatches_def)
  next
    case (XmlError m)
    with True inv show ?thesis by (simp add: step_def onXmlError_def fullBatches_def)
  next
    case (Death w)
    with True inv show ?thesis by (simp add: step_def onDeath_def fullBatches_fatal)
  qed
qed

lemma exec_fullBatches: "fullBatches s \<Longrightarrow> fullBatches (exec E s evs)"
  unfolding exec_def by (induction evs arbitrary: s) (simp_all add: step_fullBatches)

lemma nWritten_le_accounted: "nWritten s \<le> accounted s"
  by (simp add: accounted_def)

text \<open>
  C1 (the defect). Entries reach the database only in batches of \<open>kBatchSize\<close>, and
  nothing flushes the last, shorter batch: a run that has accepted fewer than
  \<open>kBatchSize\<close> records has written nothing, whatever else has happened.
\<close>

theorem short_run_persists_nothing:
  "nRead (exec E (initial n) evs) < kBatchSize \<longrightarrow> db (exec E (initial n) evs) = Map.empty"
proof
  let ?s = "exec E (initial n) evs"
  assume few: "nRead ?s < kBatchSize"
  have "accounted (initial n) \<le> nRead (initial n)"
    by (simp add: accounted_def buffered_def queued_def initial_def)
  then have "accounted ?s \<le> nRead ?s" by (rule exec_accounted)
  with few nWritten_le_accounted [of ?s] have less: "nWritten ?s < kBatchSize" by simp
  have "fullBatches (initial n)"
    by (simp add: fullBatches_def initial_def)
  then have "fullBatches ?s" by (rule exec_fullBatches)
  with less show "db ?s = Map.empty"
    by (auto simp: fullBatches_def split: if_splits)
qed

text \<open>
  Scenario A of the spec: one page \<open>Test\<close> with the text \<open>Hello\<close>. At the end of
  the run the reply of the worker, with its tree, is in \<open>batch\<close>; nothing is in
  flight, the worker has disconnected, and the database is empty.
\<close>

theorem short_run_persists_nothing_witness:
  "nRead (exec plainEnv (initial (Suc 0)) oneRecordRun) < kBatchSize \<and>
   db (exec plainEnv (initial (Suc 0)) oneRecordRun) = Map.empty \<and>
   db (exec plainEnv (initial (Suc 0)) oneRecordRun) (js ''Test'') = None \<and>
   batch (exec plainEnv (initial (Suc 0)) oneRecordRun) =
     [\<lparr>key = js ''Test'',
       val = ParsedPage None (js ''Test'') [Text (js ''Hello'')] (1 / 1000) 0 None\<rparr>] \<and>
   inflight (exec plainEnv (initial (Suc 0)) oneRecordRun) = [] \<and>
   workers (exec plainEnv (initial (Suc 0)) oneRecordRun) =
     [\<lparr>inbox = [], online = False, wlog = []\<rparr>] \<and>
   exited (exec plainEnv (initial (Suc 0)) oneRecordRun) = None"
proof -
  have run: "exec plainEnv (initial (Suc 0)) oneRecordRun =
     \<lparr>nRead = 1, nWritten = 0,
      batch = [\<lparr>key = js ''Test'',
                val = ParsedPage None (js ''Test'') [Text (js ''Hello'')] (1 / 1000) 0 None\<rparr>],
      inflight = [], db = Map.empty,
      workers = [\<lparr>inbox = [], online = False, wlog = []\<rparr>],
      nSentToWorkers = 1, paused = False, logged = [ShuttingDown], exited = None\<rparr>"
    by (simp add: oneRecordRun_def exec_def string_defs regex_defs handler_defs)
  show ?thesis
    using short_run_persists_nothing [of plainEnv "Suc 0" oneRecordRun]
    by (simp add: run kBatchSize_def)
qed

end
